theory Spec2Isabelle
  imports Main "HOL-Library.AList"
begin

section \<open>JavaScript strings\<close>

text \<open>
  Paths are JavaScript strings, modelled as \<^typ>\<open>string\<close>. The functions below are the
  String and Array methods that the module calls: \<open>charAt\<close>, \<open>includes\<close>, \<open>split('.')\<close>,
  \<open>join\<close> and \<open>replace\<close> with a string pattern (which replaces the first occurrence only).
\<close>

definition charAt :: "string \<Rightarrow> int \<Rightarrow> string" where
  \<comment> \<open>\<open>s.charAt(i)\<close>: the empty string when \<open>i\<close> is out of range (also for \<open>i = -1\<close>).\<close>
  "charAt s i = (if 0 \<le> i \<and> i < int (length s) then [s ! nat i] else [])"

fun str_includes :: "string \<Rightarrow> string \<Rightarrow> bool" where
  \<comment> \<open>\<open>s.includes(t)\<close>: \<open>t\<close> occurs in \<open>s\<close> as a substring.\<close>
  "str_includes s t =
     (take (length t) s = t \<or> (case s of [] \<Rightarrow> False | c # r \<Rightarrow> str_includes r t))"

declare str_includes.simps [simp del]

fun split_dot :: "string \<Rightarrow> string list" where
  \<comment> \<open>\<open>s.split('.')\<close>: never the empty array; \<open>''''\<close> gives one empty segment.\<close>
  "split_dot [] = [[]]"
| "split_dot (c # r) =
     (if c = CHR ''.'' then [] # split_dot r
      else (c # hd (split_dot r)) # tl (split_dot r))"

fun join :: "string \<Rightarrow> string list \<Rightarrow> string" where
  \<comment> \<open>\<open>xs.join(sep)\<close>.\<close>
  "join sep [] = []"
| "join sep [x] = x"
| "join sep (x # y # r) = x @ sep @ join sep (y # r)"

fun replace_first :: "string \<Rightarrow> string \<Rightarrow> string \<Rightarrow> string" where
  \<comment> \<open>\<open>s.replace(pat, rep)\<close> for a string \<open>pat\<close>: only the first occurrence is replaced.\<close>
  "replace_first pat rep s =
     (if take (length pat) s = pat then rep @ drop (length pat) s
      else (case s of [] \<Rightarrow> [] | c # r \<Rightarrow> c # replace_first pat rep r))"

declare replace_first.simps [simp del]

section \<open>The path validator\<close>

definition pathIsValid :: "string \<Rightarrow> bool" where
  "pathIsValid path =
     (\<not> (charAt path 0 = ''.'' \<or> charAt path (int (length path) - 1) = ''.''
         \<or> str_includes path ''..'' \<or> str_includes path ''$''))"

section \<open>JavaScript values and the object-path accessors\<close>

text \<open>
  Field definitions, schema trees and documents are JavaScript values. \<open>JFun\<close> stands for a
  function object such as the constructors \<open>String\<close> and \<open>Number\<close> that name a type in a
  definition. An object is the list of its own properties in insertion order.
\<close>

datatype jsv = JUndef | JNull | JBool bool | JNum int | JStr string | JFun string
  | JArr "jsv list" | JObj "(string \<times> jsv) list"

text \<open>
  What a promise is rejected with: a message string of the module, an exception thrown while
  the executor or a callback runs, or an error of the document store. \<open>OutOfRange\<close> marks
  a call of the resolver's auxiliary function with an index beyond the segments, which
  \<open>getLastSchemaAndPaths\<close> never makes.
\<close>

datatype error = Msg string | ReferenceError string | TypeError string | StoreError string
  | OutOfRange

definition is_digit :: "char \<Rightarrow> bool" where
  "is_digit c = (c \<in> set ''0123456789'')"

definition canonical :: "string \<Rightarrow> bool" where
  \<comment> \<open>The decimal digits of a natural number as \<open>toString\<close> prints them.\<close>
  "canonical k = (k \<noteq> [] \<and> list_all is_digit k \<and> (k = ''0'' \<or> hd k \<noteq> CHR ''0''))"

definition decimal :: "string \<Rightarrow> int" where
  "decimal k = foldl (\<lambda>n c. 10 * n + (of_char c - 48)) 0 k"

function odd_part :: "int \<Rightarrow> int" where
  "odd_part n = (if n \<le> 0 \<or> odd n then n else odd_part (n div 2))"
  by pat_completeness auto
termination
  by (relation "measure nat") auto

declare odd_part.simps [simp del]

definition number_key :: "string \<Rightarrow> bool" where
  \<comment> \<open>object-path's \<open>getKey\<close> turns a segment into a number when
      \<open>parseInt(key).toString() === key\<close>: the segment is \<open>NaN\<close>, or the digits of an
      integer, with a minus sign if it is negative, that \<open>parseInt\<close> gives exactly (a
      double holds it: its odd part is below \<open>2^53\<close>) and that prints without an
      exponent (it is below \<open>10^21\<close>).\<close>
  "number_key k =
     (k = ''NaN'' \<or>
      (let digits = (if k \<noteq> [] \<and> hd k = CHR ''-'' then tl k else k)
       in canonical digits \<and> k \<noteq> ''-0''
          \<and> odd_part (decimal digits) < 9007199254740992
          \<and> decimal digits < 1000000000000000000000))"

definition index_key :: "string \<Rightarrow> nat option" where
  \<comment> \<open>The element of an array that a segment names: the segments that are array indices.
      The other number keys (negative, \<open>NaN\<close>, \<open>2^32 - 1\<close> and above) name plain
      properties of an array, as the other strings do.\<close>
  "index_key k = (if canonical k \<and> decimal k < 4294967295 then Some (nat (decimal k)) else None)"

fun get_prop :: "jsv \<Rightarrow> string \<Rightarrow> jsv" where
  \<comment> \<open>Own property \<open>v[k]\<close>; \<open>undefined\<close> when there is none.\<close>
  "get_prop (JObj kvs) k = (case map_of kvs k of Some v \<Rightarrow> v | None \<Rightarrow> JUndef)"
| "get_prop (JArr xs) k =
     (case index_key k of Some i \<Rightarrow> (if i < length xs then xs ! i else JUndef) | None \<Rightarrow> JUndef)"
| "get_prop v k = JUndef"

fun get_keys :: "jsv \<Rightarrow> string list \<Rightarrow> jsv" where
  "get_keys v [] = v"
| "get_keys v (k # ks) = (if get_prop v k = JUndef then JUndef else get_keys (get_prop v k) ks)"

definition objectPath_get :: "jsv \<Rightarrow> string \<Rightarrow> jsv" where
  \<comment> \<open>\<open>objectPath.get(obj, path)\<close>: the empty path gives \<open>obj\<close> itself.\<close>
  "objectPath_get obj path = (if path = [] then obj else get_keys obj (split_dot path))"

fun store_prop :: "jsv \<Rightarrow> string \<Rightarrow> jsv \<Rightarrow> jsv" where
  \<comment> \<open>\<open>v[k] = x\<close> on an object or array. Properties of function objects and named
      properties of arrays are outside the model: the value is returned as it was.\<close>
  "store_prop (JObj kvs) k x = JObj (AList.update k x kvs)"
| "store_prop (JArr xs) k x =
     (case index_key k of
        Some i \<Rightarrow> JArr (if i < length xs then xs[i := x]
                         else xs @ replicate (i - length xs) JUndef @ [x])
      | None \<Rightarrow> JArr xs)"
| "store_prop v k x = v"

fun assignable :: "jsv \<Rightarrow> bool" where
  "assignable (JObj kvs) = True"
| "assignable (JArr xs) = True"
| "assignable (JFun f) = True"
| "assignable v = False"

definition put :: "jsv \<Rightarrow> string \<Rightarrow> jsv \<Rightarrow> error + jsv" where
  \<comment> \<open>Assignment in strict mode: a TypeError on \<open>undefined\<close>, \<open>null\<close> and primitives.\<close>
  "put v k x = (if assignable v then Inr (store_prop v k x)
                else Inl (TypeError (''Cannot set property '' @ k)))"

fun set_keys :: "jsv \<Rightarrow> string list \<Rightarrow> jsv \<Rightarrow> error + jsv" where
  "set_keys v [] x = Inr v"
| "set_keys v [k] x = put v k x"
| "set_keys v (k # k' # ks) x =
     (case set_keys (if get_prop v k = JUndef
                     then (if number_key k' then JArr [] else JObj [])
                     else get_prop v k) (k' # ks) x of
        Inl e \<Rightarrow> Inl e
      | Inr w \<Rightarrow> put v k w)"

definition objectPath_set :: "jsv \<Rightarrow> string \<Rightarrow> jsv \<Rightarrow> error + jsv" where
  \<comment> \<open>\<open>objectPath.set(obj, path, x)\<close>, returning the object as mutated. Missing
      intermediate values are created: an array before a segment that is a number key,
      else an object.\<close>
  "objectPath_set obj path x = (if path = [] then Inr obj else set_keys obj (split_dot path) x)"

fun remove_prop :: "jsv \<Rightarrow> string \<Rightarrow> jsv" where
  \<comment> \<open>\<open>delete v[k]\<close>, and \<open>v.splice(k, 1)\<close> on an array.\<close>
  "remove_prop (JObj kvs) k = JObj (AList.delete k kvs)"
| "remove_prop (JArr xs) k =
     (case index_key k of Some i \<Rightarrow> JArr (take i xs @ drop (Suc i) xs) | None \<Rightarrow> JArr xs)"
| "remove_prop v k = v"

fun del_keys :: "jsv \<Rightarrow> string list \<Rightarrow> jsv" where
  "del_keys v [] = v"
| "del_keys v [k] = (if get_prop v k = JUndef then v else remove_prop v k)"
| "del_keys v (k # k' # ks) =
     (if get_prop v k = JUndef then v else store_prop v k (del_keys (get_prop v k) (k' # ks)))"

definition objectPath_del :: "jsv \<Rightarrow> string \<Rightarrow> jsv" where
  \<comment> \<open>\<open>objectPath.del(obj, path)\<close>, returning the object as mutated.\<close>
  "objectPath_del obj path = (if path = [] then obj else del_keys obj (split_dot path))"

fun members :: "jsv \<Rightarrow> (string \<times> jsv) list" where
  "members (JObj kvs) = kvs"
| "members v = []"

fun keys_length :: "jsv \<Rightarrow> nat" where
  \<comment> \<open>\<open>Object.keys(v).length\<close> for a value that is neither \<open>undefined\<close> nor \<open>null\<close>.\<close>
  "keys_length (JObj kvs) = length kvs"
| "keys_length (JArr xs) = length xs"
| "keys_length (JStr s) = length s"
| "keys_length v = 0"

fun truthy :: "jsv \<Rightarrow> bool" where
  "truthy JUndef = False"
| "truthy JNull = False"
| "truthy (JBool b) = b"
| "truthy (JNum n) = (n \<noteq> 0)"
| "truthy (JStr s) = (s \<noteq> [])"
| "truthy v = True"

section \<open>The schema\<close>

text \<open>
  A Mongoose schema object as the module uses it: \<open>schema.tree\<close>, the nested object of field
  definitions that the module reads and edits with object-path, and \<open>schema.path(p)\<close>, which
  gives the type registered at the local path \<open>p\<close>: its \<open>instance\<close> name and, for an array
  of subdocuments, the \<open>schema\<close> of the elements. The element schema is an object of its
  own, so a field inside an array is described once in the tree of every enclosing level.

  The module mutates schema objects in place through references. Every schema is referenced
  from one place only (the registered type of its array), so the model nests the element
  schema in its parent and writes a changed element schema back along the hops that lead
  to it.
\<close>

datatype schema = Schema (tree: "(string \<times> jsv) list") (paths: "(string \<times> stype) list")
  and stype = SType (st_instance: string) (st_schema: "schema option")

definition is_nested :: "jsv \<Rightarrow> bool" where
  \<comment> \<open>Modelled from the spec: the schema library is not part of the repository. A
      definition is a subdocument (a nested tree, section 3) when it is an object with at
      least one field and no \<open>type\<close>.\<close>
  "is_nested v = (members v \<noteq> [] \<and> map_of (members v) ''type'' = None)"

fun type_of_def :: "jsv \<Rightarrow> jsv" where
  \<comment> \<open>Modelled from the spec: the \<open>type\<close> attribute of a node (section 3), or the
      definition itself when it is written without options.\<close>
  "type_of_def (JObj kvs) = (case map_of kvs ''type'' of Some t \<Rightarrow> t | None \<Rightarrow> JObj kvs)"
| "type_of_def v = v"

fun element_def :: "jsv \<Rightarrow> jsv option" where
  \<comment> \<open>Modelled from the spec: the element tree of an array-of-subdocument node
      (\<open>tree.arrayElementTree\<close>, section 6); none for an array of primitives.\<close>
  "element_def (JArr (e # es)) = (if is_nested e then Some e else None)"
| "element_def v = None"

fun instance_of :: "jsv \<Rightarrow> string" where
  \<comment> \<open>Modelled from the spec: the flag marking a node as an array (section 3), as the
      \<open>instance\<close> name the module compares with \<open>Array\<close>.\<close>
  "instance_of (JArr xs) = ''Array''"
| "instance_of (JFun f) = f"
| "instance_of v = ''Mixed''"

lemma map_of_size:
  "map_of kvs k = Some (v::jsv) \<Longrightarrow> size v < Suc (size_list (size_prod (\<lambda>_. 0) size) kvs)"
  by (induction kvs) (auto split: if_splits)

lemma type_of_def_size: "size (type_of_def v) \<le> size v"
  by (cases v) (auto split: option.splits dest: map_of_size)

lemma element_def_size: "element_def v = Some e \<Longrightarrow> size e < size v"
  by (cases v rule: element_def.cases) (auto split: if_splits)

lemma members_size: "size_list (size_prod (\<lambda>_. 0) size) (members v) \<le> size v"
  by (cases v) auto

function merge_into ::
  "(string \<times> jsv) list \<Rightarrow> (string \<times> jsv) list \<Rightarrow> (string \<times> jsv) list" where
  \<comment> \<open>Modelled from the spec: \<open>tree.set(localPath, node)\<close> (section 6) for every field of
      an added object; the members of a subdocument are set one by one, so that adding
      \<open>{a: {c: d}}\<close> keeps the other members of \<open>a\<close>.\<close>
  "merge_into t [] = t"
| "merge_into t ((k, v) # r) =
     merge_into
       (AList.update k
          (if is_nested v then JObj (merge_into (members (get_prop (JObj t) k)) (members v)) else v) t)
       r"
  by pat_completeness auto
termination
proof (relation "measure (\<lambda>(t, d). size_list (size_prod (\<lambda>_. 0) size) d)")
  show "wf (measure (\<lambda>(t, d). size_list (size_prod (\<lambda>_. 0) size) d))" by simp
next
  fix t :: "(string \<times> jsv) list" and k v r
  have "size_list (size_prod (\<lambda>_. 0) size) (members v) \<le> size v" by (rule members_size)
  then show "((members (get_prop (JObj t) k), members v), t, (k, v) # r)
        \<in> measure (\<lambda>(t, d). size_list (size_prod (\<lambda>_. 0) size) d)"
    by simp
next
  fix t :: "(string \<times> jsv) list" and k v r
  show "((AList.update k
           (if is_nested v then JObj (merge_into (members (get_prop (JObj t) k)) (members v))
            else v) t, r), t, (k, v) # r)
        \<in> measure (\<lambda>(t, d). size_list (size_prod (\<lambda>_. 0) size) d)"
    by simp
qed

function types_of :: "string \<Rightarrow> (string \<times> jsv) list \<Rightarrow> (string \<times> stype) list" where
  \<comment> \<open>Modelled from the spec: the types that adding an object registers, one for every
      field that is not a subdocument, under its dotted local path; an array of
      subdocuments gets an element schema of its own, built from its element tree.\<close>
  "types_of pre [] = []"
| "types_of pre ((k, v) # r) =
     (if is_nested v then types_of (pre @ k @ ''.'') (members v)
      else [(pre @ k,
             SType (instance_of (type_of_def v))
               (case element_def (type_of_def v) of
                  Some e \<Rightarrow> Some (Schema (merge_into [] (members e)) (types_of [] (members e)))
                | None \<Rightarrow> None))])
     @ types_of pre r"
  by pat_completeness auto
termination
proof (relation "measure (\<lambda>(pre, d). size_list (size_prod (\<lambda>_. 0) size) d)")
  show "wf (measure (\<lambda>(pre, d). size_list (size_prod (\<lambda>_. 0) size) d))" by simp
next
  fix pre :: string and k v r
  have "size_list (size_prod (\<lambda>_. 0) size) (members v) \<le> size v" by (rule members_size)
  then show "((pre @ k @ ''.'', members v), pre, (k, v) # r)
        \<in> measure (\<lambda>(pre, d). size_list (size_prod (\<lambda>_. 0) size) d)"
    by simp
next
  fix pre :: string and k v r e
  assume "element_def (type_of_def v) = Some e"
  then have "size e < size (type_of_def v)" by (rule element_def_size)
  also have "\<dots> \<le> size v" by (rule type_of_def_size)
  finally have "size e < size v" .
  moreover have "size_list (size_prod (\<lambda>_. 0) size) (members e) \<le> size e"
    by (rule members_size)
  ultimately show "(([], members e), pre, (k, v) # r)
        \<in> measure (\<lambda>(pre, d). size_list (size_prod (\<lambda>_. 0) size) d)"
    by simp
next
  fix pre :: string and k v r
  show "((pre, r), pre, (k, v) # r)
        \<in> measure (\<lambda>(pre, d). size_list (size_prod (\<lambda>_. 0) size) d)"
    by simp
qed

definition schema_path :: "schema \<Rightarrow> string \<Rightarrow> stype option" where
  \<comment> \<open>\<open>schema.path(p)\<close>; \<open>None\<close> is \<open>undefined\<close>.\<close>
  "schema_path s p = map_of (paths s) p"

definition schema_add :: "schema \<Rightarrow> jsv \<Rightarrow> schema" where
  \<comment> \<open>Modelled from the spec: \<open>schema.add(obj)\<close> is the insertion of section 4.3 into the
      owning tree, by \<open>tree.set\<close> of section 6, together with the registration of the types
      of the added members. What the schema library refuses in a definition is not modelled.\<close>
  "schema_add s obj =
     Schema (merge_into (tree s) (members obj))
       (fold (\<lambda>(p, t). AList.update p t) (types_of [] (members obj)) (paths s))"

text \<open>
  The operations call the \<open>remove\<close> of the schema they are given; it is a parameter of
  theirs (\<open>st_remove\<close> below). Two such functions follow: one that deletes whatever node is
  at the path, and one that acts on the paths with a registered type only, so that a path
  that is a subdocument stays.
\<close>

definition schema_remove :: "schema \<Rightarrow> string \<Rightarrow> schema" where
  \<comment> \<open>Modelled from the spec: a \<open>schema.remove(p)\<close> that is \<open>tree.delete(localPath)\<close> of
      section 6 at every path: the node at \<open>p\<close> leaves the tree, and the types registered at
      or below \<open>p\<close> go with it. Nothing happens when the tree has no node at \<open>p\<close>.\<close>
  "schema_remove s p =
     Schema (members (objectPath_del (JObj (tree s)) p))
       (filter (\<lambda>(q, t). q \<noteq> p \<and> take (Suc (length p)) q \<noteq> p @ ''.'') (paths s))"

definition remove_registered :: "schema \<Rightarrow> string \<Rightarrow> schema" where
  \<comment> \<open>Modelled from the spec: a \<open>schema.remove(p)\<close> that is \<open>tree.delete(localPath)\<close> at the
      paths with a registered type, and does nothing at any other path.\<close>
  "remove_registered s p =
     (if map_of (paths s) p = None then s
      else Schema (members (objectPath_del (JObj (tree s)) p))
             (filter (\<lambda>(q, t). q \<noteq> p) (paths s)))"

definition empty_schema :: schema where
  "empty_schema = Schema [] []"

section \<open>The path resolver\<close>

record lastSchemaAndPaths =
  exists :: bool
  schema :: schema
  path :: string
  fullPath :: string
  pathToLast :: string
  subPaths :: "string list"

definition is_array :: "schema \<Rightarrow> string \<Rightarrow> bool" where
  \<comment> \<open>\<open>schema.path(p) !== undefined && schema.path(p).instance === "Array"\<close>\<close>
  "is_array s p = (case schema_path s p of None \<Rightarrow> False | Some t \<Rightarrow> st_instance t = ''Array'')"

text \<open>
  The \<open>while\<close> loop of \<open>getLastSchemaAndPathsRecursive\<close>. It is entered with an index below
  \<open>path.length\<close>, where the source's test \<open>currentPathIndex == path.length\<close> after the
  increment and the test \<open>length path \<le> Suc currentPathIndex\<close> agree.
\<close>

function scan :: "schema \<Rightarrow> string list \<Rightarrow> nat \<Rightarrow> string \<Rightarrow> nat \<times> string" where
  "scan currentSchema path' currentPathIndex currentPath =
     (if \<not> is_array currentSchema currentPath then
        (if length path' \<le> Suc currentPathIndex then (Suc currentPathIndex, currentPath)
         else scan currentSchema path' (Suc currentPathIndex)
                (currentPath @ ''.'' @ path' ! Suc currentPathIndex))
      else (currentPathIndex, currentPath))"
  by pat_completeness auto
termination
  by (relation "measure (\<lambda>(s, path', i, cp). length path' - i)") auto

declare scan.simps [simp del]

lemma scan_index: "currentPathIndex \<le> fst (scan currentSchema path' currentPathIndex currentPath)"
proof (induction currentSchema path' currentPathIndex currentPath rule: scan.induct)
  case (1 s p i cp)
  show ?case
  proof (cases "is_array s cp")
    case True
    then show ?thesis by (subst scan.simps) simp
  next
    case False
    show ?thesis
    proof (cases "length p \<le> Suc i")
      case True
      with False show ?thesis by (subst scan.simps) simp
    next
      case stay: False
      from 1 [OF False stay] have "Suc i \<le> fst (scan s p (Suc i) (cp @ ''.'' @ p ! Suc i))" .
      with False stay show ?thesis by (subst scan.simps) simp
    qed
  qed
qed

text \<open>
  The source reads \<open>path[currentPathIndex]\<close> first. \<open>getLastSchemaAndPaths\<close> starts at
  index 0 of a non-empty list of segments and the recursive call passes an index below
  \<open>path.length\<close>, so the read is in range at every call; the first branch stands for the
  calls that are never made. A type with instance \<open>Array\<close> and no element schema (an array
  of primitives) makes the recursive call read \<open>path\<close> of \<open>undefined\<close>: a TypeError.
\<close>

function getLastSchemaAndPathsRecursive ::
  "schema \<Rightarrow> string list \<Rightarrow> nat \<Rightarrow> string \<Rightarrow> string list \<Rightarrow> error + lastSchemaAndPaths" where
  "getLastSchemaAndPathsRecursive currentSchema path' currentPathIndex currentFullPath subPaths' =
     (if length path' \<le> currentPathIndex then Inl OutOfRange
      else
        let (i, currentPath) = scan currentSchema path' currentPathIndex (path' ! currentPathIndex)
        in if is_array currentSchema currentPath \<and> Suc i < length path' then
             (case st_schema (the (schema_path currentSchema currentPath)) of
                None \<Rightarrow> Inl (TypeError ''Cannot read property path of undefined'')
              | Some child \<Rightarrow>
                  getLastSchemaAndPathsRecursive child path' (Suc i)
                    (if currentFullPath = [] then currentPath
                     else currentFullPath @ ''.$[].'' @ currentPath)
                    (subPaths' @ [currentPath]))
           else
             Inr \<lparr>exists = (objectPath_get (JObj (tree currentSchema)) currentPath \<noteq> JUndef),
                  schema = currentSchema,
                  path = currentPath,
                  fullPath = (if currentFullPath = [] then currentPath
                              else currentFullPath @ ''.$[].'' @ currentPath),
                  pathToLast = replace_first ''.$[]'' [] currentFullPath,
                  subPaths = subPaths' @ [currentPath]\<rparr>)"
  by pat_completeness auto
termination
proof (relation "measure (\<lambda>(s, path', i, f, sp). length path' - i)")
  show "wf (measure (\<lambda>(s, path', i, f, sp). length path' - i))" by simp
next
  fix currentSchema :: schema and path' :: "string list" and currentPathIndex :: nat
    and currentFullPath :: string and subPaths' :: "string list" and x i currentPath child
  assume "\<not> length path' \<le> currentPathIndex"
    and x: "x = scan currentSchema path' currentPathIndex (path' ! currentPathIndex)"
    and "(i, currentPath) = x"
    and arr: "is_array currentSchema currentPath \<and> Suc i < length path'"
  then have "currentPathIndex \<le> i"
    using scan_index [of currentPathIndex currentSchema path' "path' ! currentPathIndex"]
    by (metis fst_conv)
  with arr have "length path' - Suc i < length path' - currentPathIndex" by linarith
  then show "((child, path', Suc i,
         if currentFullPath = [] then currentPath else currentFullPath @ ''.$[].'' @ currentPath,
         subPaths' @ [currentPath]),
        currentSchema, path', currentPathIndex, currentFullPath, subPaths')
       \<in> measure (\<lambda>(s, path', i, f, sp). length path' - i)"
    by simp
qed

declare getLastSchemaAndPathsRecursive.simps [simp del]

definition getLastSchemaAndPaths :: "schema \<Rightarrow> string \<Rightarrow> error + lastSchemaAndPaths" where
  "getLastSchemaAndPaths schema' path' =
     getLastSchemaAndPathsRecursive schema' (split_dot path') 0 [] []"

section \<open>The model, the document store and promises\<close>

text \<open>
  A Mongoose model: its schema and the documents of its collection.
\<close>

record model =
  schema :: schema
  docs :: "jsv list"

text \<open>
  Modelled from the spec: the document store is not part of the repository. Section 6 gives
  the operation shapes the module consumes: a collection-wide filtered update
  (\<open>model.update(filter, update, {multi: true, upsert: false})\<close>), a scan returning all
  documents (\<open>model.find({})\<close>), and marking a field of one document as changed and
  persisting the document (\<open>doc.markModified(path); doc.save(callback)\<close>, which sees the
  schema of the model). Each of them either fails with an error of the store or gives the
  collection (for the scan: the documents) after it. The store is a parameter of every
  operation, so that a theorem about an operation holds for every behaviour of the store.

  The schema library comes with the model in the same way, and the \<open>remove\<close> of its schemas
  is a parameter with the store: \<open>st_remove\<close> is what \<open>schema.remove(path)\<close> makes of a
  schema. Section 6 names it \<open>tree.delete(localPath)\<close>; whether it also deletes a path
  that is a subdocument, which has no registered type, is up to the library. A theorem that
  depends on what \<open>remove\<close> does says what it assumes of it.
\<close>

record store =
  st_update :: "jsv \<Rightarrow> jsv \<Rightarrow> jsv list \<Rightarrow> string + jsv list"
  st_find :: "jsv list \<Rightarrow> string + jsv list"
  st_save :: "schema \<Rightarrow> string \<Rightarrow> jsv \<Rightarrow> jsv list \<Rightarrow> string + jsv list"
  st_remove :: "schema \<Rightarrow> string \<Rightarrow> schema"

text \<open>
  A promise is settled by the first call of its \<open>resolve\<close> or \<open>reject\<close>; later calls have no
  effect, and a promise neither of which is ever called stays pending. An operation is
  modelled by the events of its run in the order in which they happen, and the model it
  leaves: \<open>Settle\<close> is a call of \<open>resolve\<close> or \<open>reject\<close> of the operation's promise, the other
  events are the completions of the store's operations, with their success. Code that runs
  synchronously in the executor comes before the completion of any store operation it
  started, since callbacks run only after the running code has returned.
\<close>

datatype outcome = Resolved jsv | Rejected error

datatype event = Settle outcome | BulkUpdate bool | FindAll bool | Save bool

type_synonym run = "event list \<times> model"

fun settled :: "event list \<Rightarrow> outcome option" where
  \<comment> \<open>The state of the promise after the run; \<open>None\<close> is pending for ever.\<close>
  "settled [] = None"
| "settled (Settle out # es) = Some out"
| "settled (e # es) = settled es"

fun is_store_event :: "event \<Rightarrow> bool" where
  "is_store_event (Settle out) = False"
| "is_store_event e = True"

definition store_events :: "event list \<Rightarrow> event list" where
  "store_events es = filter is_store_event es"

definition then_promise :: "run \<Rightarrow> (jsv \<Rightarrow> model \<Rightarrow> run) \<Rightarrow> run" where
  \<comment> \<open>\<open>p.then(k)\<close> where a rejection of \<open>p\<close> reaches a later \<open>.catch(error => reject(error))\<close>:
      \<open>k\<close> runs on the value and the model that \<open>p\<close> leaves; a rejection passes through.\<close>
  "then_promise r k =
     (case settled (fst r) of
        None \<Rightarrow> (store_events (fst r), snd r)
      | Some (Rejected e) \<Rightarrow> (store_events (fst r) @ [Settle (Rejected e)], snd r)
      | Some (Resolved v) \<Rightarrow> (store_events (fst r) @ fst (k v (snd r)), snd (k v (snd r))))"

definition then_uncaught :: "run \<Rightarrow> (jsv \<Rightarrow> model \<Rightarrow> run) \<Rightarrow> run" where
  \<comment> \<open>\<open>p.then(k)\<close> with no \<open>catch\<close> after it: a rejection of \<open>p\<close> calls nothing.\<close>
  "then_uncaught r k =
     (case settled (fst r) of
        None \<Rightarrow> (store_events (fst r), snd r)
      | Some (Rejected e) \<Rightarrow> (store_events (fst r), snd r)
      | Some (Resolved v) \<Rightarrow> (store_events (fst r) @ fst (k v (snd r)), snd (k v (snd r))))"

lemma then_promise_cong [fundef_cong]:
  "r = r' \<Longrightarrow> (\<And>v. settled (fst r') = Some (Resolved v) \<Longrightarrow> k v (snd r') = k' v (snd r'))
     \<Longrightarrow> then_promise r k = then_promise r' k'"
  by (auto simp: then_promise_def split: option.splits outcome.splits)

definition resolve :: "string \<Rightarrow> model \<Rightarrow> run" where
  "resolve msg m = ([Settle (Resolved (JStr msg))], m)"

definition reject :: "error \<Rightarrow> model \<Rightarrow> run" where
  "reject e m = ([Settle (Rejected e)], m)"

definition model_update :: "store \<Rightarrow> model \<Rightarrow> jsv \<Rightarrow> jsv \<Rightarrow> run" where
  \<comment> \<open>The promise of \<open>model.update(filter, update, {multi: true, upsert: false})\<close>.\<close>
  "model_update st m q u =
     (case st_update st q u (docs m) of
        Inl e \<Rightarrow> ([BulkUpdate False, Settle (Rejected (StoreError e))], m)
      | Inr ds \<Rightarrow> ([BulkUpdate True, Settle (Resolved JUndef)], m\<lparr>docs := ds\<rparr>))"

definition model_find :: "store \<Rightarrow> model \<Rightarrow> run" where
  \<comment> \<open>The promise of \<open>model.find({}).exec()\<close>.\<close>
  "model_find st m =
     (case st_find st (docs m) of
        Inl e \<Rightarrow> ([FindAll False, Settle (Rejected (StoreError e))], m)
      | Inr ds \<Rightarrow> ([FindAll True, Settle (Resolved (JArr ds))], m))"

section \<open>Schemas below arrays\<close>

fun descend :: "schema \<Rightarrow> string list \<Rightarrow> schema option" where
  \<comment> \<open>The schema reached from \<open>s\<close> by \<open>.path(h).schema\<close> for every hop \<open>h\<close>.\<close>
  "descend s [] = Some s"
| "descend s (h # hs) =
     (case schema_path s h of
        None \<Rightarrow> None
      | Some t \<Rightarrow> (case st_schema t of None \<Rightarrow> None | Some c \<Rightarrow> descend c hs))"

definition set_child :: "schema \<Rightarrow> string \<Rightarrow> schema \<Rightarrow> schema" where
  "set_child s h c =
     Schema (tree s)
       (map (\<lambda>(q, t). if q = h then (q, SType (st_instance t) (Some c)) else (q, t)) (paths s))"

fun update_at :: "string list \<Rightarrow> (schema \<Rightarrow> schema) \<Rightarrow> schema \<Rightarrow> schema" where
  \<comment> \<open>A mutation of the schema object reached by the hops, seen from the root.\<close>
  "update_at [] f s = f s"
| "update_at (h # hs) f s =
     (case schema_path s h of
        None \<Rightarrow> s
      | Some t \<Rightarrow> (case st_schema t of None \<Rightarrow> s | Some c \<Rightarrow> set_child s h (update_at hs f c)))"

definition owner :: "model \<Rightarrow> lastSchemaAndPaths \<Rightarrow> schema" where
  \<comment> \<open>The object \<open>lastSchemaAndPaths.schema\<close> in its present state: the schema reached
      from the root by the hops before the last. The operations never unregister a hop,
      so the second case stands for nothing that happens.\<close>
  "owner m l =
     (case descend (schema m) (butlast (subPaths l)) of
        Some s \<Rightarrow> s
      | None \<Rightarrow> lastSchemaAndPaths.schema l)"

definition update_owner :: "lastSchemaAndPaths \<Rightarrow> (schema \<Rightarrow> schema) \<Rightarrow> model \<Rightarrow> model" where
  "update_owner l f m = m\<lparr>schema := update_at (butlast (subPaths l)) f (schema m)\<rparr>"

text \<open>
  The loop that both \<open>addSchemaAux\<close> and \<open>removeSchemaField\<close> run over the trees of the
  enclosing levels:
  \<^verbatim>\<open>for (var currentSchema = model.schema; subPaths.length > 1;
       currentSchema = currentSchema.path(subPaths[0]).schema, subPaths.shift())
     edit(currentSchema.tree, subPaths.join('.0.'))\<close>
  It gives the schema as mutated, with the exception that stopped it, if one did.
\<close>

fun tree_loop ::
  "(jsv \<Rightarrow> string \<Rightarrow> error + jsv) \<Rightarrow> schema \<Rightarrow> string list \<Rightarrow> schema \<times> error option" where
  "tree_loop edit currentSchema [] = (currentSchema, None)"
| "tree_loop edit currentSchema [p] = (currentSchema, None)"
| "tree_loop edit currentSchema (p # q # r) =
     (case edit (JObj (tree currentSchema)) (join ''.0.'' (p # q # r)) of
        Inl e \<Rightarrow> (currentSchema, Some e)
      | Inr t \<Rightarrow>
          (case schema_path (Schema (members t) (paths currentSchema)) p of
             None \<Rightarrow> (Schema (members t) (paths currentSchema),
                       Some (TypeError ''Cannot read property schema of undefined''))
           | Some ty \<Rightarrow>
               (case st_schema ty of
                  None \<Rightarrow> (Schema (members t) (paths currentSchema),
                            if r = [] then None
                            else Some (TypeError ''Cannot read property tree of undefined''))
                | Some c \<Rightarrow>
                    (set_child (Schema (members t) (paths currentSchema)) p
                       (fst (tree_loop edit c (q # r))),
                     snd (tree_loop edit c (q # r))))))"

section \<open>The operations\<close>

fun save_defaults :: "store \<Rightarrow> string \<Rightarrow> nat \<Rightarrow> nat \<Rightarrow> jsv list \<Rightarrow> model \<Rightarrow> run" where
  \<comment> \<open>The callbacks of \<open>doc.save\<close> in \<open>updateDefaults\<close>, one document after the other.\<close>
  "save_defaults st p numToSave numSaved [] m = ([], m)"
| "save_defaults st p numToSave numSaved (doc # rest) m =
     (case st_save st (schema m) p doc (docs m) of
        Inl e \<Rightarrow>
          (Save False # Settle (Rejected (StoreError e))
             # fst (save_defaults st p numToSave numSaved rest m),
           snd (save_defaults st p numToSave numSaved rest m))
      | Inr ds \<Rightarrow>
          (Save True
             # (if Suc numSaved = numToSave then [Settle (Resolved JUndef)] else [])
             @ fst (save_defaults st p numToSave (Suc numSaved) rest (m\<lparr>docs := ds\<rparr>)),
           snd (save_defaults st p numToSave (Suc numSaved) rest (m\<lparr>docs := ds\<rparr>))))"

definition updateDefaults :: "store \<Rightarrow> model \<Rightarrow> string \<Rightarrow> run" where
  "updateDefaults st m p =
     (case st_find st (docs m) of
        Inl e \<Rightarrow> ([FindAll False, Settle (Rejected (StoreError e))], m)
      | Inr ds \<Rightarrow>
          if length ds = 0 then ([FindAll True, Settle (Resolved JUndef)], m)
          else (FindAll True # fst (save_defaults st p (length ds) 0 ds m),
                snd (save_defaults st p (length ds) 0 ds m)))"

definition addSchemaAux :: "store \<Rightarrow> model \<Rightarrow> lastSchemaAndPaths \<Rightarrow> jsv \<Rightarrow> run" where
  "addSchemaAux st m l fieldDefinition =
     (case objectPath_set (JObj []) (path l) fieldDefinition of
        Inl e \<Rightarrow> reject e m
      | Inr addQuery \<Rightarrow>
          (case tree_loop (\<lambda>t p. objectPath_set t p fieldDefinition)
                  (schema (update_owner l (\<lambda>s. schema_add s addQuery) m)) (subPaths l) of
             (s, Some e) \<Rightarrow> reject e (m\<lparr>schema := s\<rparr>)
           | (s, None) \<Rightarrow>
               then_promise (updateDefaults st (m\<lparr>schema := s\<rparr>) (last (subPaths l)))
                 (\<lambda>v m'. ([Settle (Resolved JUndef)], m'))))"

function removeSchemaField :: "store \<Rightarrow> model \<Rightarrow> string \<Rightarrow> bool \<Rightarrow> run" where
  "removeSchemaField st m path' removeSubdocumentIfEmpty =
     (if \<not> pathIsValid path' then reject (Msg ''The path is not valid'') m
      else case getLastSchemaAndPaths (schema m) path' of
        Inl e \<Rightarrow> reject e m
      | Inr l \<Rightarrow>
          if \<not> exists l then
            reject (Msg (''The field to remove does not exists ('' @ path' @ '')'')) m
          else
            then_promise
              (model_update st m
                 (JObj (if pathToLast l \<noteq> [] then [(pathToLast l, JObj [(''$gt'', JArr [])])]
                        else []))
                 (JObj [(''$unset'', JObj [(fullPath l, JNum 1)])]))
              (\<lambda>v m1.
                 case tree_loop (\<lambda>t p. Inr (objectPath_del t p))
                        (schema (update_owner l (\<lambda>s. st_remove st s (path l))
                           (m1\<lparr>schema := st_remove st (schema m1) (fullPath l)\<rparr>)))
                        (subPaths l) of
                   (s, Some e) \<Rightarrow> reject e (m1\<lparr>schema := s\<rparr>)
                 | (s, None) \<Rightarrow>
                     if removeSubdocumentIfEmpty then
                       (let m2 = update_owner l
                                   (\<lambda>s'. Schema (members (objectPath_del (JObj (tree s')) (path l)))
                                          (paths s'))
                                   (m1\<lparr>schema := s\<rparr>);
                            lastPathArray = butlast (split_dot (path l));
                            parent = objectPath_get (JObj (tree (owner m2 l))) (join ''.'' lastPathArray)
                        in if length (split_dot (path l)) > 1 then
                             (if parent = JUndef \<or> parent = JNull then
                                reject (TypeError ''Cannot convert undefined or null to object'') m2
                              else if keys_length parent = 0 then
                                then_uncaught
                                  (removeSchemaField st m2
                                     (if pathToLast l = [] then join ''.'' lastPathArray
                                      else pathToLast l @ ''.'' @ join ''.'' lastPathArray)
                                     False)
                                  (\<lambda>v. resolve ''Field removed successfully'')
                              else resolve ''Field removed successfully'' m2)
                           else resolve ''Field removed successfully'' m2)
                     else resolve ''Field removed successfully'' (m1\<lparr>schema := s\<rparr>)))"
  by pat_completeness auto
termination
  by (relation "measure (\<lambda>(st, m, p, c). if c then 1 else 0)") auto

declare removeSchemaField.simps [simp del]

definition addSchemaField :: "store \<Rightarrow> model \<Rightarrow> string \<Rightarrow> jsv \<Rightarrow> run" where
  "addSchemaField st m path' fieldDefinition =
     (if \<not> pathIsValid path' then reject (Msg ''The path is not valid'') m
      else case getLastSchemaAndPaths (schema m) path' of
        Inl e \<Rightarrow> reject e m
      | Inr l \<Rightarrow>
          if exists l then
            reject (Msg (''The field to add already exists ('' @ path' @ '')'')) m
          else
            (let lastPaths = butlast (split_dot (path l));
                 previousField =
                   objectPath_get (JObj (tree (lastSchemaAndPaths.schema l))) (join ''.'' lastPaths)
             in if length (split_dot (path l)) > 1 then
                  (if previousField \<noteq> JUndef \<and> previousField \<noteq> JNull
                      \<and> (keys_length previousField = 0
                          \<or> (truthy (get_prop previousField ''type'')
                              \<and> keys_length (get_prop previousField ''type'') = 0)) then
                     then_promise
                       (then_promise
                          (removeSchemaField st m (pathToLast l @ join '','' lastPaths) False)
                          (\<lambda>v m1. addSchemaAux st m1 l fieldDefinition))
                       (\<lambda>v. resolve ''Field added successfully'')
                   else
                     then_promise (addSchemaAux st m l fieldDefinition)
                       (\<lambda>v. resolve ''Field added successfully''))
                else
                  then_promise (addSchemaAux st m l fieldDefinition)
                    (\<lambda>v. resolve ''Field added successfully'')))"

fun for_each :: "('a \<Rightarrow> error + 'a) \<Rightarrow> 'a list \<Rightarrow> error + 'a list" where
  \<comment> \<open>\<open>xs.forEach(f)\<close> for an \<open>f\<close> that mutates its argument: the elements as mutated, or
      the exception that stopped the iteration.\<close>
  "for_each f [] = Inr []"
| "for_each f (x # xs) =
     (case f x of
        Inl e \<Rightarrow> Inl e
      | Inr y \<Rightarrow> (case for_each f xs of Inl e \<Rightarrow> Inl e | Inr ys \<Rightarrow> Inr (y # ys)))"

lemma for_each_cong [fundef_cong]:
  "xs = ys \<Longrightarrow> (\<And>x. x \<in> set ys \<Longrightarrow> f x = g x) \<Longrightarrow> for_each f xs = for_each g ys"
  by (induction ys arbitrary: xs) (auto split: sum.splits)

function moveForAllSubArraysRecursive ::
  "jsv \<Rightarrow> string list \<Rightarrow> string \<Rightarrow> nat \<Rightarrow> error + jsv" where
  "moveForAllSubArraysRecursive doc subPaths' lastDestPath currentPathIndex =
     (if Suc currentPathIndex = length subPaths' then
        objectPath_set doc lastDestPath (objectPath_get doc (subPaths' ! currentPathIndex))
      else if length subPaths' \<le> currentPathIndex then
        Inl (TypeError ''forEach is not a function'')
      else
        (case objectPath_get doc (subPaths' ! currentPathIndex) of
           JArr subDocs \<Rightarrow>
             (case for_each
                     (\<lambda>subDoc. moveForAllSubArraysRecursive subDoc subPaths' lastDestPath
                                 (Suc currentPathIndex))
                     subDocs of
                Inl e \<Rightarrow> Inl e
              | Inr subDocs' \<Rightarrow>
                  if subPaths' ! currentPathIndex = [] then Inr (JArr subDocs')
                  else objectPath_set doc (subPaths' ! currentPathIndex) (JArr subDocs'))
         | _ \<Rightarrow> Inl (TypeError ''forEach is not a function'')))"
  by pat_completeness auto
termination
  by (relation "measure (\<lambda>(doc, sp, d, i). length sp - i)") auto

declare moveForAllSubArraysRecursive.simps [simp del]

definition moveForAllSubArrays :: "jsv \<Rightarrow> string list \<Rightarrow> string \<Rightarrow> error + jsv" where
  "moveForAllSubArrays doc subPaths' lastDestPath =
     moveForAllSubArraysRecursive doc subPaths' lastDestPath 0"

fun move_docs :: "string list \<Rightarrow> string \<Rightarrow> jsv list \<Rightarrow> jsv list \<times> error option" where
  \<comment> \<open>The synchronous part of \<open>docs.forEach\<close> in \<open>moveSchemaField\<close>: the documents whose
      \<open>save\<close> was started, as mutated, and the exception that stopped the iteration.\<close>
  "move_docs sp d [] = ([], None)"
| "move_docs sp d (doc # rest) =
     (case moveForAllSubArrays doc sp d of
        Inl e \<Rightarrow> ([], Some e)
      | Inr doc' \<Rightarrow> (doc' # fst (move_docs sp d rest), snd (move_docs sp d rest)))"

fun save_moved ::
  "store \<Rightarrow> string \<Rightarrow> string \<Rightarrow> bool \<Rightarrow> nat \<Rightarrow> nat \<Rightarrow> jsv list \<Rightarrow> model \<Rightarrow> run" where
  \<comment> \<open>The callbacks of \<open>doc.save\<close> in \<open>moveSchemaField\<close>, one document after the other:
      \<open>numUpdated\<close> counts failed saves too, and the last callback removes the origin.\<close>
  "save_moved st p origin c numToUpdate numUpdated [] m = ([], m)"
| "save_moved st p origin c numToUpdate numUpdated (doc # rest) m =
     (let saved = st_save st (schema m) p doc (docs m);
          m1 = (case saved of Inl e \<Rightarrow> m | Inr ds \<Rightarrow> m\<lparr>docs := ds\<rparr>);
          r1 = (if Suc numUpdated = numToUpdate then
                  then_promise (removeSchemaField st m1 origin c)
                    (\<lambda>v. resolve ''Field moved successfully'')
                else ([], m1));
          r2 = save_moved st p origin c numToUpdate (Suc numUpdated) rest (snd r1)
      in ((case saved of
             Inl e \<Rightarrow> [Save False, Settle (Rejected (StoreError e))]
           | Inr ds \<Rightarrow> [Save True]) @ fst r1 @ fst r2,
          snd r2))"

text \<open>
  The branch of \<open>moveSchemaField\<close> after the two validations (lines 490 to 544).
\<close>

definition moveSchemaField_validated ::
  "store \<Rightarrow> model \<Rightarrow> string \<Rightarrow> string \<Rightarrow> bool \<Rightarrow> run" where
  "moveSchemaField_validated st m origin dest removeSubdocumentIfEmpty =
     (case getLastSchemaAndPaths (schema m) origin of
        Inl e \<Rightarrow> reject e m
      | Inr lo \<Rightarrow>
     (case getLastSchemaAndPaths (schema m) dest of
        Inl e \<Rightarrow> reject e m
      | Inr ld \<Rightarrow>
          if \<not> exists lo then
            reject (Msg (''Origin path does not exists ('' @ origin @ '')'')) m
          else if exists ld then
            reject (Msg (''Destination path already exists ('' @ dest @ '')'')) m
          else if length (subPaths lo) \<noteq> length (subPaths ld) then
            reject (Msg ''Origin and destination paths must refer to the same subdocument'') m
          else if butlast (subPaths lo) \<noteq> butlast (subPaths ld) then
            reject (Msg ''Origin and destination paths must refer to the same subdocument'') m
          else
            then_promise
              (then_promise
                 (addSchemaField st m dest
                    (objectPath_get (JObj (tree (lastSchemaAndPaths.schema lo))) (path lo)))
                 (\<lambda>v m1. model_find st m1))
              (\<lambda>found m2.
                 case found of
                   JArr ds \<Rightarrow>
                     if length ds = 0 then resolve ''Field moved successfully'' m2
                     else
                       (case move_docs (subPaths lo) (path ld) ds of
                          (ds', Some e) \<Rightarrow>
                            (Settle (Rejected e)
                               # fst (save_moved st (hd (subPaths ld)) origin
                                        removeSubdocumentIfEmpty (length ds) 0 ds' m2),
                             snd (save_moved st (hd (subPaths ld)) origin
                                    removeSubdocumentIfEmpty (length ds) 0 ds' m2))
                        | (ds', None) \<Rightarrow>
                            save_moved st (hd (subPaths ld)) origin
                              removeSubdocumentIfEmpty (length ds) 0 ds' m2)
                 | _ \<Rightarrow> reject (TypeError ''docs.forEach is not a function'') m2)))"

text \<open>
  The destination is validated by \<open>pathIsValid(path)\<close>. The parameters of \<open>moveSchemaField\<close>
  are \<open>model\<close>, \<open>origin\<close>, \<open>dest\<close> and \<open>removeSubdocumentIfEmpty\<close>, the function declares no
  variable \<open>path\<close>, and the module binds only \<open>objectPath\<close> and its own functions: the
  identifier has no binding, and evaluating it throws a ReferenceError. An exception
  thrown in the executor of a promise rejects the promise.
\<close>

definition identifier_path :: "error + string" where
  "identifier_path = Inl (ReferenceError ''path is not defined'')"

definition moveSchemaField :: "store \<Rightarrow> model \<Rightarrow> string \<Rightarrow> string \<Rightarrow> bool \<Rightarrow> run" where
  "moveSchemaField st m origin dest removeSubdocumentIfEmpty =
     (if \<not> pathIsValid origin then reject (Msg ''The origin path is not valid'') m
      else case identifier_path of
        Inl e \<Rightarrow> reject e m
      | Inr p \<Rightarrow>
          if \<not> pathIsValid p then reject (Msg ''The destination path is not valid'') m
          else moveSchemaField_validated st m origin dest removeSubdocumentIfEmpty)"

definition changeFieldDefinition :: "store \<Rightarrow> model \<Rightarrow> string \<Rightarrow> jsv \<Rightarrow> run" where
  \<comment> \<open>The rejection for a missing field is not followed by a \<open>return\<close>: the chain of
      removal, addition and defaults starts all the same. The local \<open>fieldDefinition\<close> is
      built and never used.\<close>
  "changeFieldDefinition st m path' newDefinition =
     (if \<not> pathIsValid path' then reject (Msg ''The path is not valid'') m
      else case getLastSchemaAndPaths (schema m) path' of
        Inl e \<Rightarrow> reject e m
      | Inr l \<Rightarrow>
          (let chain =
                 then_promise
                   (then_promise
                      (then_promise (removeSchemaField st m path' False)
                         (\<lambda>v m1. addSchemaField st m1 path' newDefinition))
                      (\<lambda>v m2. updateDefaults st m2 (hd (subPaths l))))
                   (\<lambda>v. resolve ''Field definition modified'')
           in ((if \<not> exists l then
                  [Settle (Rejected (Msg (''The path does not point to an existing field (''
                                          @ path' @ '')'')))]
                else []) @ fst chain,
               snd chain)))"

definition delete_member :: "jsv \<Rightarrow> string \<Rightarrow> jsv" where
  \<comment> \<open>\<open>delete v.k\<close> for a value that is neither \<open>undefined\<close> nor \<open>null\<close>.\<close>
  "delete_member v k = (case v of JObj kvs \<Rightarrow> JObj (AList.delete k kvs) | _ \<Rightarrow> v)"

definition retype :: "schema \<Rightarrow> string \<Rightarrow> jsv \<Rightarrow> jsv \<Rightarrow> jsv \<Rightarrow> error + jsv" where
  \<comment> \<open>Lines 607 to 622 of \<open>changeFieldType\<close>: the object \<open>fieldDefinition\<close> that is
      added, or the TypeError of the assignment to \<open>fieldDefinitionSuper.type\<close>.\<close>
  "retype s p newType defaultValue required =
     (case objectPath_set (JObj []) p (objectPath_get (JObj (tree s)) p) of
        Inl e \<Rightarrow> Inl e
      | Inr fieldDefinition \<Rightarrow>
          (case put (objectPath_get fieldDefinition p) ''type'' newType of
             Inl e \<Rightarrow> Inl e
           | Inr typed \<Rightarrow>
               (let defaulted =
                      (if defaultValue \<noteq> JUndef \<and> defaultValue \<noteq> JNull
                       then store_prop typed ''default'' defaultValue
                       else delete_member typed ''default'');
                    fieldDefinitionSuper =
                      (if truthy required then store_prop defaulted ''required'' required
                       else delete_member defaulted ''required'')
                in if p = [] then Inr fieldDefinitionSuper
                   else objectPath_set fieldDefinition p fieldDefinitionSuper)))"

definition changeFieldType ::
  "store \<Rightarrow> model \<Rightarrow> string \<Rightarrow> jsv \<Rightarrow> jsv \<Rightarrow> jsv \<Rightarrow> bool \<Rightarrow> run" where
  \<comment> \<open>The rejection for a missing field is not followed by a \<open>return\<close>. The call
      \<open>resolve("Field type changed")\<close> of line 644 runs in the executor, after the update of
      the documents was started and before it completes.\<close>
  "changeFieldType st m path' newType defaultValue required keepValues =
     (if \<not> pathIsValid path' then reject (Msg ''The path is not valid'') m
      else case getLastSchemaAndPaths (schema m) path' of
        Inl e \<Rightarrow> reject e m
      | Inr l \<Rightarrow>
          (let missing =
                 (if \<not> exists l then
                    [Settle (Rejected (Msg (''The path does not point to an existing field (''
                                            @ path' @ '')'')))]
                  else [])
           in case retype (lastSchemaAndPaths.schema l) (path l) newType defaultValue required of
                Inl e \<Rightarrow> (missing @ [Settle (Rejected e)], m)
              | Inr fieldDefinition \<Rightarrow>
                  (let m1 = update_owner l
                              (\<lambda>s. schema_add (st_remove st s (path l)) fieldDefinition) m;
                       migration =
                         (if \<not> keepValues then
                            then_promise
                              (model_update st m1
                                 (JObj (if pathToLast l \<noteq> []
                                        then [(pathToLast l, JObj [(''$gt'', JArr [])])]
                                        else []))
                                 (JObj [(''$set'', JObj [(fullPath l, defaultValue)])]))
                              (\<lambda>v. resolve ''Field type changed'')
                          else
                            then_promise (updateDefaults st m1 (hd (subPaths l)))
                              (\<lambda>v. resolve ''Field type changed''))
                   in (missing @ [Settle (Resolved (JStr ''Field type changed''))]
                         @ fst migration,
                       snd migration))))"

section \<open>A store in memory\<close>

text \<open>
  A store that never fails, to run the operations on given collections: the filter
  \<open>{p: {$gt: []}}\<close> selects the documents with a non-empty array at \<open>p\<close>, \<open>$unset\<close> and
  \<open>$set\<close> follow a path in which \<open>$[]\<close> stands for every element of an array, and a saved
  document replaces the stored one with its \<open>_id\<close>.
\<close>

fun edit_path :: "(jsv \<Rightarrow> string \<Rightarrow> jsv) \<Rightarrow> string list \<Rightarrow> jsv \<Rightarrow> jsv" where
  "edit_path f [] v = v"
| "edit_path f [k] v = f v k"
| "edit_path f (k # k' # ks) v =
     (if get_prop v k = JUndef then v
      else if k' = ''$[]'' then
        (case get_prop v k of
           JArr xs \<Rightarrow> store_prop v k (JArr (map (edit_path f ks) xs))
         | _ \<Rightarrow> v)
      else store_prop v k (edit_path f (k' # ks) (get_prop v k)))"

definition selects :: "jsv \<Rightarrow> jsv \<Rightarrow> bool" where
  "selects q doc =
     list_all (\<lambda>(p, c). case objectPath_get doc p of JArr (x # xs) \<Rightarrow> True | _ \<Rightarrow> False)
       (members q)"

definition apply_update :: "jsv \<Rightarrow> jsv \<Rightarrow> jsv" where
  "apply_update u doc =
     fold (\<lambda>(p, x) d. edit_path (\<lambda>v k. store_prop v k x) (split_dot p) d)
       (members (get_prop u ''$set''))
       (fold (\<lambda>(p, x) d. edit_path remove_prop (split_dot p) d)
          (members (get_prop u ''$unset'')) doc)"

definition memory_store :: store where
  "memory_store =
     \<lparr>st_update = (\<lambda>q u ds. Inr (map (\<lambda>d. if selects q d then apply_update u d else d) ds)),
      st_find = (\<lambda>ds. Inr ds),
      st_save = (\<lambda>s p doc ds.
         Inr (map (\<lambda>d. if get_prop d ''_id'' = get_prop doc ''_id'' then doc else d) ds)),
      st_remove = schema_remove\<rparr>"

definition legacy_store :: store where
  \<comment> \<open>The store in memory with a schema library whose \<open>remove\<close> leaves subdocuments.\<close>
  "legacy_store = memory_store\<lparr>st_remove := remove_registered\<rparr>"

definition failing_store :: store where
  \<comment> \<open>A store whose bulk update fails.\<close>
  "failing_store = memory_store\<lparr>st_update := (\<lambda>q u ds. Inl ''update failed'')\<rparr>"

section \<open>Properties of the string functions\<close>

lemma str_includes_iff: "str_includes s t \<longleftrightarrow> (\<exists>u v. s = u @ t @ v)"
proof (induction s)
  case Nil
  show ?case by (subst str_includes.simps) auto
next
  case (Cons c r)
  show ?case
  proof
    assume "str_includes (c # r) t"
    then consider "take (length t) (c # r) = t" | "str_includes r t"
      by (subst (asm) str_includes.simps) auto
    then show "\<exists>u v. c # r = u @ t @ v"
    proof cases
      case 1
      then have "c # r = [] @ t @ drop (length t) (c # r)"
        by (metis append_Nil append_take_drop_id)
      then show ?thesis by blast
    next
      case 2
      with Cons obtain u v where "r = u @ t @ v" by blast
      then have "c # r = (c # u) @ t @ v" by simp
      then show ?thesis by blast
    qed
  next
    assume "\<exists>u v. c # r = u @ t @ v"
    then obtain u v where uv: "c # r = u @ t @ v" by blast
    show "str_includes (c # r) t"
    proof (cases u)
      case Nil
      with uv have "take (length t) (c # r) = t" by simp
      then show ?thesis by (subst str_includes.simps) simp
    next
      case (Cons a u')
      with uv have "r = u' @ t @ v" by simp
      with Cons.IH have "str_includes r t" by blast
      then show ?thesis by (subst str_includes.simps) simp
    qed
  qed
qed

lemma charAt_first: "charAt p 0 = ''.'' \<longleftrightarrow> (\<exists>r. p = CHR ''.'' # r)"
  by (cases p) (auto simp: charAt_def)

lemma charAt_last: "charAt p (int (length p) - 1) = ''.'' \<longleftrightarrow> (\<exists>r. p = r @ ''.'')"
proof (cases p rule: rev_cases)
  case Nil
  then show ?thesis by (simp add: charAt_def)
next
  case (snoc r c)
  then show ?thesis by (auto simp: charAt_def nth_append)
qed

section \<open>Claims about the path validator\<close>

text \<open>
  C7. The validator rejects a path exactly when the path starts with the separator \<open>.\<close>,
  ends with it, contains two consecutive separators, or contains the character \<open>$\<close>;
  every other path is accepted. It is a function of the path alone.
\<close>

theorem pathIsValid_rejects_iff:
  "pathIsValid p \<longleftrightarrow>
     \<not> ((\<exists>r. p = CHR ''.'' # r) \<or> (\<exists>r. p = r @ ''.'') \<or> (\<exists>u v. p = u @ ''..'' @ v)
        \<or> CHR ''$'' \<in> set p)"
proof -
  have "str_includes p ''$'' \<longleftrightarrow> CHR ''$'' \<in> set p"
    unfolding str_includes_iff by (auto simp: in_set_conv_decomp)
  then show ?thesis
    unfolding pathIsValid_def charAt_first charAt_last str_includes_iff [of p "''..''"] by simp
qed

section \<open>Properties of the resolver's string functions\<close>

lemma split_dot_nodot: "CHR ''.'' \<notin> set a \<Longrightarrow> split_dot a = [a]"
  by (induction a) auto

lemma split_dot_append: "CHR ''.'' \<notin> set a \<Longrightarrow> split_dot (a @ CHR ''.'' # r) = a # split_dot r"
  by (induction a) auto

lemma replace_first_nodot:
  "CHR ''.'' \<notin> set s \<Longrightarrow> replace_first (CHR ''.'' # pat) rep s = s"
proof (induction s)
  case Nil
  show ?case by (subst replace_first.simps) simp
next
  case (Cons c r)
  then show ?case by (subst replace_first.simps) auto
qed

section \<open>Claims about the path resolver\<close>

definition array_of_subdocuments :: schema where
  "array_of_subdocuments =
     schema_add empty_schema (JObj [(''a'', JArr [JObj [(''b'', JFun ''String'')]])])"

text \<open>
  C8. In every schema in which the field \<open>a\<close> is registered as an array of subdocuments
  whose element tree contains the field \<open>b\<close>, resolving the logical path \<open>a.b\<close> gives
  the hops \<open>[a, b]\<close>, one array boundary at \<open>a\<close>, the container path \<open>a\<close> and the
  query path \<open>a.$[].b\<close>. The names are any two non-empty-first names without a separator.
\<close>

theorem resolve_one_array_boundary:
  assumes a: "schema_path s a = Some (SType ''Array'' (Some child))"
    and b: "objectPath_get (JObj (tree child)) b \<noteq> JUndef"
    and nodot: "CHR ''.'' \<notin> set a" "CHR ''.'' \<notin> set b"
    and nonempty: "a \<noteq> []"
  shows "\<exists>l. getLastSchemaAndPaths s (a @ ''.'' @ b) = Inr l
             \<and> subPaths l = [a, b] \<and> pathToLast l = a \<and> fullPath l = a @ ''.$[].'' @ b
             \<and> path l = b \<and> exists l \<and> lastSchemaAndPaths.schema l = child"
proof -
  have segs: "split_dot (a @ ''.'' @ b) = [a, b]"
    using nodot by (simp add: split_dot_append split_dot_nodot)
  have arr: "is_array s a" using a by (simp add: is_array_def)
  have first: "scan s [a, b] 0 a = (0, a)"
    using arr by (subst scan.simps) simp
  have second: "snd (scan child [a, b] (Suc 0) b) = b \<and> Suc 0 \<le> fst (scan child [a, b] (Suc 0) b)"
    by (subst scan.simps, subst scan.simps) simp
  obtain i where i: "scan child [a, b] (Suc 0) b = (i, b)" "Suc 0 \<le> i"
    using second by (cases "scan child [a, b] (Suc 0) b") auto
  have inner: "getLastSchemaAndPathsRecursive child [a, b] (Suc 0) a [a] =
      Inr \<lparr>exists = True, schema = child, path = b, fullPath = a @ ''.$[].'' @ b,
           pathToLast = a, subPaths = [a, b]\<rparr>"
    using i b nonempty nodot
    by (subst getLastSchemaAndPathsRecursive.simps) (simp add: replace_first_nodot)
  have "getLastSchemaAndPaths s (a @ ''.'' @ b) =
      Inr \<lparr>exists = True, schema = child, path = b, fullPath = a @ ''.$[].'' @ b,
           pathToLast = a, subPaths = [a, b]\<rparr>"
    unfolding getLastSchemaAndPaths_def segs
    using first arr a inner
    by (subst getLastSchemaAndPathsRecursive.simps) (simp add: schema_path_def)
  then show ?thesis by simp
qed

theorem resolve_one_array_boundary_witness:
  "\<exists>l. getLastSchemaAndPaths array_of_subdocuments ''a.b'' = Inr l
       \<and> subPaths l = [''a'', ''b''] \<and> pathToLast l = ''a'' \<and> fullPath l = ''a.$[].b''
       \<and> path l = ''b'' \<and> exists l"
proof -
  have "schema_path array_of_subdocuments ''a'' =
      Some (SType ''Array'' (Some (Schema [(''b'', JFun ''String'')] [(''b'', SType ''String'' None)])))"
    by code_simp
  moreover have "objectPath_get (JObj (tree (Schema [(''b'', JFun ''String'')] [(''b'', SType ''String'' None)]))) ''b'' \<noteq> JUndef"
    by code_simp
  ultimately show ?thesis
    using resolve_one_array_boundary [of array_of_subdocuments "''a''" _ "''b''"] by auto
qed

definition three_arrays :: schema where
  "three_arrays =
     schema_add empty_schema
       (JObj [(''a'', JArr [JObj [(''b'', JArr [JObj [(''c'', JArr [JObj [(''d'', JFun ''String'')]])]])]])])"

text \<open>
  C5. The container path should be a plain dot-path with every array marker removed, for
  any number of array boundaries. \<open>pathToLast\<close> is computed by one \<open>replace\<close> with a string
  pattern, which removes the first marker only: below three arrays a marker stays.
\<close>

theorem pathToLast_keeps_marker_below_three_arrays:
  "map_sum id (\<lambda>l. (subPaths l, fullPath l, pathToLast l)) (getLastSchemaAndPaths three_arrays ''a.b.c.d'')
     = Inr ([''a'', ''b'', ''c'', ''d''], ''a.$[].b.$[].c.$[].d'', ''a.b.$[].c'')"
  by code_simp

section \<open>Properties of the operations\<close>

lemma resolved_exists:
  "getLastSchemaAndPathsRecursive s p i f sp = Inr l \<Longrightarrow>
     exists l = (objectPath_get (JObj (tree (lastSchemaAndPaths.schema l))) (path l) \<noteq> JUndef)"
proof (induction s p i f sp rule: getLastSchemaAndPathsRecursive.induct)
  case (1 cs p i f sp)
  show ?case
  proof (cases "length p \<le> i")
    case True
    with "1.prems" show ?thesis
      by (subst (asm) getLastSchemaAndPathsRecursive.simps) simp
  next
    case False
    obtain j cp where sc: "scan cs p i (p ! i) = (j, cp)"
      by (cases "scan cs p i (p ! i)")
    show ?thesis
    proof (cases "is_array cs cp \<and> Suc j < length p")
      case True
      show ?thesis
      proof (cases "st_schema (the (schema_path cs cp))")
        case None
        with "1.prems" False sc True show ?thesis
          by (subst (asm) getLastSchemaAndPathsRecursive.simps) simp
      next
        case (Some child)
        from "1.prems" False sc True Some
        have "getLastSchemaAndPathsRecursive child p (Suc j)
                (if f = [] then cp else f @ ''.$[].'' @ cp) (sp @ [cp]) = Inr l"
          by (subst (asm) getLastSchemaAndPathsRecursive.simps) simp
        with "1.IH" [OF False refl sc [symmetric] True Some] show ?thesis .
      qed
    next
      case notarr: False
      with "1.prems" False sc show ?thesis
        by (subst (asm) getLastSchemaAndPathsRecursive.simps) auto
    qed
  qed
qed

lemma get_prop_store_undef: "get_prop (store_prop v k JUndef) k = JUndef"
  by (cases v) (auto simp: update_conv' nth_append split: option.splits)

lemma store_prop_undef: "get_prop v k = JUndef \<Longrightarrow> get_prop (store_prop v k x) k = JUndef \<or> get_prop (store_prop v k x) k = x"
  by (cases v) (auto simp: update_conv' nth_append split: option.splits)

lemma get_after_set_undef:
  "set_keys v ks JUndef = Inr w \<Longrightarrow> ks \<noteq> [] \<Longrightarrow> get_keys w ks = JUndef"
proof (induction v ks "JUndef" arbitrary: w rule: set_keys.induct)
  case (1 v)
  then show ?case by simp
next
  case (2 v k)
  then show ?case
    by (auto simp: put_def get_prop_store_undef split: if_splits)
next
  case (3 v k k' ks)
  let ?cur = "if get_prop v k = JUndef then (if number_key k' then JArr [] else JObj [])
              else get_prop v k"
  from "3.prems" obtain w' where w': "set_keys ?cur (k' # ks) JUndef = Inr w'"
    and w: "put v k w' = Inr w"
    by (auto split: sum.splits)
  from "3.hyps" [OF w'] have inner: "get_keys w' (k' # ks) = JUndef" by simp
  from w have "w = store_prop v k w'" by (auto simp: put_def split: if_splits)
  moreover have "get_prop (store_prop v k w') k = w' \<or> get_prop (store_prop v k w') k = JUndef"
    by (cases v) (auto simp: update_conv' nth_append split: option.splits)
  ultimately show ?case using inner by auto
qed

lemma split_dot_nonempty: "split_dot p \<noteq> []"
  by (cases p) auto

lemma retype_missing:
  assumes "objectPath_get (JObj (tree s)) p = JUndef"
  shows "\<exists>e. retype s p newType defaultValue required = Inl e"
proof -
  from assms have p: "p \<noteq> []" by (auto simp: objectPath_get_def)
  show ?thesis
  proof (cases "objectPath_set (JObj []) p JUndef")
    case (Inl e)
    with assms show ?thesis by (simp add: retype_def)
  next
    case (Inr fd)
    with p have "set_keys (JObj []) (split_dot p) JUndef = Inr fd"
      by (simp add: objectPath_set_def)
    then have "get_keys fd (split_dot p) = JUndef"
      by (rule get_after_set_undef) (rule split_dot_nonempty)
    with p have "objectPath_get fd p = JUndef" by (simp add: objectPath_get_def)
    with assms Inr show ?thesis by (simp add: retype_def put_def)
  qed
qed

lemma moveSchemaField_rejects:
  "moveSchemaField st m origin dest c =
     reject (if pathIsValid origin then ReferenceError ''path is not defined''
             else Msg ''The origin path is not valid'') m"
  by (simp add: moveSchemaField_def identifier_path_def)

fun is_rejected :: "outcome option \<Rightarrow> bool" where
  "is_rejected (Some (Rejected e)) = True"
| "is_rejected out = False"

definition aborted :: "model \<Rightarrow> run \<Rightarrow> bool" where
  \<comment> \<open>The promise is rejected, no operation of the store was run, and the model (schema
      and documents) is as it was.\<close>
  "aborted m r = (is_rejected (settled (fst r)) \<and> store_events (fst r) = [] \<and> snd r = m)"

definition field_exists :: "model \<Rightarrow> string \<Rightarrow> bool" where
  "field_exists m p = (case getLastSchemaAndPaths (schema m) p of Inl e \<Rightarrow> False | Inr l \<Rightarrow> exists l)"

definition field_missing :: "model \<Rightarrow> string \<Rightarrow> bool" where
  "field_missing m p =
     (case getLastSchemaAndPaths (schema m) p of Inl e \<Rightarrow> False | Inr l \<Rightarrow> \<not> exists l)"

lemma aborted_reject: "aborted m (reject e m)"
  by (simp add: aborted_def reject_def store_events_def)

lemma add_aborts:
  assumes "\<not> pathIsValid p \<or> field_exists m p"
  shows "aborted m (addSchemaField st m p d)"
proof (cases "pathIsValid p")
  case False
  then show ?thesis by (simp add: addSchemaField_def aborted_reject)
next
  case True
  with assms obtain l where "getLastSchemaAndPaths (schema m) p = Inr l" "exists l"
    by (auto simp: field_exists_def split: sum.splits)
  with True show ?thesis by (simp add: addSchemaField_def aborted_reject)
qed

lemma remove_aborts:
  assumes "\<not> pathIsValid p \<or> field_missing m p"
  shows "aborted m (removeSchemaField st m p c)"
proof (cases "pathIsValid p")
  case False
  then show ?thesis by (subst removeSchemaField.simps) (simp add: aborted_reject)
next
  case True
  with assms obtain l where "getLastSchemaAndPaths (schema m) p = Inr l" "\<not> exists l"
    by (auto simp: field_missing_def split: sum.splits)
  with True show ?thesis by (subst removeSchemaField.simps) (simp add: aborted_reject)
qed

lemma then_promise_reject: "then_promise (reject e m) k = reject e m"
  by (simp add: then_promise_def reject_def store_events_def)

lemma changeFieldDefinition_aborts:
  assumes "\<not> pathIsValid p \<or> field_missing m p"
  shows "aborted m (changeFieldDefinition st m p d)"
proof (cases "pathIsValid p")
  case False
  then show ?thesis by (simp add: changeFieldDefinition_def aborted_reject)
next
  case True
  with assms obtain l where l: "getLastSchemaAndPaths (schema m) p = Inr l" "\<not> exists l"
    by (auto simp: field_missing_def split: sum.splits)
  with True have "removeSchemaField st m p False =
      reject (Msg (''The field to remove does not exists ('' @ p @ '')'')) m"
    by (subst removeSchemaField.simps) simp
  with True l show ?thesis
    by (simp add: changeFieldDefinition_def then_promise_reject)
       (simp add: aborted_def reject_def store_events_def)
qed

lemma changeFieldType_aborts:
  assumes "\<not> pathIsValid p \<or> field_missing m p"
  shows "aborted m (changeFieldType st m p t dv rq kv)"
proof (cases "pathIsValid p")
  case False
  then show ?thesis by (simp add: changeFieldType_def aborted_reject)
next
  case True
  with assms obtain l where l: "getLastSchemaAndPaths (schema m) p = Inr l" "\<not> exists l"
    by (auto simp: field_missing_def split: sum.splits)
  then have "objectPath_get (JObj (tree (lastSchemaAndPaths.schema l))) (path l) = JUndef"
    using resolved_exists [of "schema m" "split_dot p" 0 "[]" "[]" l]
    by (simp add: getLastSchemaAndPaths_def)
  then obtain e where "retype (lastSchemaAndPaths.schema l) (path l) t dv rq = Inl e"
    using retype_missing by blast
  with True l show ?thesis
    by (simp add: changeFieldType_def aborted_def store_events_def)
qed

definition nested_model :: model where
  "nested_model =
     \<lparr>schema = schema_add empty_schema
         (JObj [(''a'', JObj [(''b'', JObj [(''c'', JFun ''String'')])]),
                (''n'', JObj [(''type'', JFun ''Number''), (''default'', JNum 0)])]),
      docs = [JObj [(''_id'', JNum 1), (''a'', JObj [(''b'', JObj [(''c'', JStr ''x'')])]),
                    (''n'', JNum 3)]]\<rparr>"

section \<open>Claims about the operations\<close>

text \<open>
  C9. For each of the five operations, when the call fails the validation of a path or
  its precondition of existence (the field exists already for an addition, the
  destination for a move; the field is missing for a removal, the origin of a move, a
  redefinition or a change of type), the promise is rejected, no operation of the store
  has run, and the schema and the documents are unchanged.
\<close>

theorem failed_precondition_changes_nothing:
  "(\<not> pathIsValid p \<or> field_exists m p \<longrightarrow> aborted m (addSchemaField st m p d))
   \<and> (\<not> pathIsValid p \<or> field_missing m p \<longrightarrow> aborted m (removeSchemaField st m p c))
   \<and> (\<not> pathIsValid origin \<or> \<not> pathIsValid dest \<or> field_missing m origin \<or> field_exists m dest
        \<longrightarrow> aborted m (moveSchemaField st m origin dest c))
   \<and> (\<not> pathIsValid p \<or> field_missing m p \<longrightarrow> aborted m (changeFieldDefinition st m p d))
   \<and> (\<not> pathIsValid p \<or> field_missing m p \<longrightarrow> aborted m (changeFieldType st m p t dv rq kv))"
  using add_aborts [of p m st d] remove_aborts [of p m st c]
    changeFieldDefinition_aborts [of p m st d] changeFieldType_aborts [of p m st t dv rq kv]
  by (simp add: moveSchemaField_rejects aborted_reject)

theorem failed_precondition_changes_nothing_witness:
  "aborted nested_model (addSchemaField memory_store nested_model ''n'' (JFun ''String''))
   \<and> aborted nested_model (removeSchemaField memory_store nested_model ''a..b'' True)
   \<and> aborted nested_model (moveSchemaField memory_store nested_model ''a.q'' ''n'' False)
   \<and> aborted nested_model (changeFieldDefinition memory_store nested_model ''a.q'' (JFun ''String''))
   \<and> aborted nested_model
        (changeFieldType memory_store nested_model ''a.q'' (JFun ''String'') JUndef JUndef False)"
proof -
  have 1: "field_exists nested_model ''n''" by code_simp
  have 2: "\<not> pathIsValid ''a..b''" by code_simp
  have 3: "field_missing nested_model ''a.q''" by code_simp
  show ?thesis
    using 1 2 3
      failed_precondition_changes_nothing [where p = "''n''" and m = nested_model
         and st = memory_store and d = "JFun ''String''"]
      failed_precondition_changes_nothing [where p = "''a..b''" and m = nested_model
         and st = memory_store and c = True]
      failed_precondition_changes_nothing [where p = "''a.q''" and m = nested_model
         and st = memory_store and d = "JFun ''String''" and origin = "''a.q''" and dest = "''n''"
         and c = False and t = "JFun ''String''" and dv = JUndef and rq = JUndef and kv = False]
    by blast
qed

definition array_model :: model where
  "array_model =
     \<lparr>schema = schema_add empty_schema
         (JObj [(''a'', JArr [JObj [(''b'', JFun ''String''), (''x'', JFun ''Number'')]]),
                (''c0'', JFun ''String'')]),
      docs = [JObj [(''_id'', JNum 1),
                    (''a'', JArr [JObj [(''b'', JStr ''u''), (''x'', JNum 1)],
                                  JObj [(''b'', JStr ''v'')]])]]\<rparr>"

text \<open>
  C1. A move between siblings of one array level (an existing origin, a destination that
  does not exist, the same hops before the last) should resolve with
  \<open>Field moved successfully\<close>, and a move across array levels should be rejected with the
  message for paths of different subdocuments. The code rejects both with the
  ReferenceError of the identifier \<open>path\<close>; the branch behind the validations, run on the
  same inputs, gives the two outcomes of the claim.
\<close>

theorem moveSchemaField_rejects_sibling_move:
  "settled (fst (moveSchemaField memory_store array_model ''a.b'' ''a.e'' False))
     = Some (Rejected (ReferenceError ''path is not defined''))
   \<and> settled (fst (moveSchemaField memory_store array_model ''a.b'' ''c'' False))
     = Some (Rejected (ReferenceError ''path is not defined''))
   \<and> settled (fst (moveSchemaField_validated memory_store array_model ''a.b'' ''a.e'' False))
     = Some (Resolved (JStr ''Field moved successfully''))
   \<and> settled (fst (moveSchemaField_validated memory_store array_model ''a.b'' ''c'' False))
     = Some (Rejected (Msg ''Origin and destination paths must refer to the same subdocument''))"
  by code_simp

text \<open>
  C2. \<open>changeFieldType\<close> should settle only after the migration of the documents has
  completed, rejected if the bulk update fails. The call of \<open>resolve\<close> at the end of the
  executor comes first: with a store whose update fails, the promise is resolved, the
  failure of the update comes after it, and the rejection that follows has no effect.
\<close>

theorem changeFieldType_resolves_before_migration:
  "fst (changeFieldType failing_store nested_model ''n'' (JFun ''String'') (JStr ''z'') JUndef False)
     = [Settle (Resolved (JStr ''Field type changed'')), BulkUpdate False,
        Settle (Rejected (StoreError ''update failed''))]
   \<and> settled (fst (changeFieldType failing_store nested_model ''n'' (JFun ''String'') (JStr ''z'')
                     JUndef False))
     = Some (Resolved (JStr ''Field type changed''))
   \<and> fst (changeFieldType memory_store nested_model ''n'' (JFun ''String'') (JStr ''z'') JUndef True)
     = [Settle (Resolved (JStr ''Field type changed'')), FindAll True, Save True,
        Settle (Resolved (JStr ''Field type changed''))]"
  by code_simp

lemma resolve_empty_path:
  "getLastSchemaAndPaths s [] =
     Inr \<lparr>exists = True, schema = s, path = [], fullPath = [], pathToLast = [],
          subPaths = [[]]\<rparr>"
proof -
  have "scan s [[]] 0 [] = (if is_array s [] then (0, []) else (Suc 0, []))"
    by (subst scan.simps) simp
  moreover have "replace_first ''.$[]'' [] [] = []"
    by (subst replace_first.simps) simp
  ultimately show ?thesis
    unfolding getLastSchemaAndPaths_def
    by (subst getLastSchemaAndPathsRecursive.simps) (simp add: objectPath_get_def)
qed

lemma then_promise_first_event:
  "fst r = e # es \<Longrightarrow> is_store_event e \<Longrightarrow> \<exists>es'. fst (then_promise r k) = e # es'"
  by (auto simp: then_promise_def store_events_def split: option.splits outcome.splits)

lemma model_update_first_event: "\<exists>ok es. fst (model_update st m q u) = BulkUpdate ok # es"
  by (auto simp: model_update_def split: sum.splits)

lemma then_promise_first_event3:
  assumes "fst r = e # es" "is_store_event e"
  shows "\<exists>es'. fst (then_promise (then_promise (then_promise r k1) k2) k3) = e # es'"
proof -
  from assms obtain es1 where "fst (then_promise r k1) = e # es1"
    using then_promise_first_event by blast
  with assms(2) obtain es2 where "fst (then_promise (then_promise r k1) k2) = e # es2"
    using then_promise_first_event by blast
  with assms(2) show ?thesis
    using then_promise_first_event by blast
qed

lemma remove_proceeds:
  assumes "pathIsValid p" "getLastSchemaAndPaths (schema m) p = Inr l" "exists l"
  shows "\<exists>k. removeSchemaField st m p c =
           then_promise
             (model_update st m
                (JObj (if pathToLast l \<noteq> [] then [(pathToLast l, JObj [(''$gt'', JArr [])])]
                       else []))
                (JObj [(''$unset'', JObj [(fullPath l, JNum 1)])])) k"
  apply (subst removeSchemaField.simps)
  apply (simp only: assms if_True if_False not_True_eq_False not_False_eq_True sum.case)
  apply (rule exI)
  apply (rule refl)
  done

lemma valid_empty_path: "pathIsValid []"
  by (simp add: pathIsValid_def charAt_def str_includes.simps)

lemma remove_empty_path_updates:
  "\<exists>ok rest. fst (removeSchemaField st m [] c) = BulkUpdate ok # rest"
proof -
  obtain k where k: "removeSchemaField st m [] c =
      then_promise (model_update st m (JObj []) (JObj [(''$unset'', JObj [([], JNum 1)])])) k"
    using remove_proceeds [OF valid_empty_path resolve_empty_path, where st = st and c = c]
    by auto
  obtain ok es where upd:
    "fst (model_update st m (JObj []) (JObj [(''$unset'', JObj [([], JNum 1)])])) = BulkUpdate ok # es"
    using model_update_first_event by blast
  have "is_store_event (BulkUpdate ok)" by simp
  from then_promise_first_event [OF upd this] obtain es' where
    "fst (then_promise (model_update st m (JObj []) (JObj [(''$unset'', JObj [([], JNum 1)])])) k)
       = BulkUpdate ok # es'"
    by blast
  with k show ?thesis by simp
qed

text \<open>
  The empty path in the addition, the removal, the redefinition and the change of type: the
  validator accepts it, and it is resolved, as an existing field (object-path reads the
  whole tree at the empty path). The addition is rejected because the field exists, the
  removal and the redefinition start the bulk update that unsets it, and the change of
  type resolves.
\<close>

theorem empty_path_reaches_resolution:
  "pathIsValid []
   \<and> addSchemaField st m [] d = reject (Msg ''The field to add already exists ()'') m
   \<and> (\<exists>ok rest. fst (removeSchemaField st m [] c) = BulkUpdate ok # rest)
   \<and> (\<exists>ok rest. fst (changeFieldDefinition st m [] d) = BulkUpdate ok # rest)
   \<and> (\<exists>rest. fst (changeFieldType st m [] t dv rq kv)
               = Settle (Resolved (JStr ''Field type changed'')) # rest)"
proof -
  have add: "addSchemaField st m [] d = reject (Msg ''The field to add already exists ()'') m"
    by (simp add: addSchemaField_def resolve_empty_path valid_empty_path)
  obtain ok rest where rem: "fst (removeSchemaField st m [] False) = BulkUpdate ok # rest"
    using remove_empty_path_updates by blast
  have chain: "\<exists>es'. fst (then_promise (then_promise (then_promise
                 (removeSchemaField st m [] False) k1) k2) k3) = BulkUpdate ok # es'" for k1 k2 k3
    using then_promise_first_event3 [OF rem] by simp
  have "fst (changeFieldDefinition st m [] d) =
      fst (then_promise (then_promise (then_promise (removeSchemaField st m [] False)
             (\<lambda>v m1. addSchemaField st m1 [] d)) (\<lambda>v m2. updateDefaults st m2 []))
             (\<lambda>v. resolve ''Field definition modified''))"
    by (simp add: changeFieldDefinition_def resolve_empty_path valid_empty_path Let_def)
  with chain have cfd: "\<exists>ok rest. fst (changeFieldDefinition st m [] d) = BulkUpdate ok # rest"
    by metis
  obtain fd where fd: "retype (schema m) [] t dv rq = Inr fd"
    by (simp add: retype_def objectPath_set_def objectPath_get_def put_def Let_def)
  have cft: "\<exists>rest. fst (changeFieldType st m [] t dv rq kv)
               = Settle (Resolved (JStr ''Field type changed'')) # rest"
    by (simp add: changeFieldType_def resolve_empty_path valid_empty_path fd Let_def)
  show ?thesis
    using valid_empty_path add remove_empty_path_updates cfd cft by blast
qed

text \<open>
  C10. The validator accepts the empty string, and an empty path should go on to the
  resolution in every public operation. In \<open>moveSchemaField\<close> it does not: the empty origin
  passes its validation, and the evaluation of \<open>path\<close> in the validation of the destination
  throws the ReferenceError, whatever the destination; the call ends rejected before any
  path is resolved. The branch behind the validations resolves both paths and finds the
  destination.
\<close>

theorem moveSchemaField_empty_path_rejected:
  "pathIsValid []
   \<and> moveSchemaField st m [] dest c = reject (ReferenceError ''path is not defined'') m
   \<and> settled (fst (moveSchemaField_validated memory_store nested_model [] [] False))
     = Some (Rejected (Msg ''Destination path already exists ()''))"
proof -
  have "settled (fst (moveSchemaField_validated memory_store nested_model [] [] False))
     = Some (Rejected (Msg ''Destination path already exists ()''))"
    by code_simp
  then show ?thesis by (simp add: moveSchemaField_rejects valid_empty_path)
qed

definition empty_collection :: model where
  "empty_collection = array_model\<lparr>docs := []\<rparr>"

text \<open>
  What a move leaves when it resolves. On the code no move resolves: the promise of
  \<open>moveSchemaField\<close> is rejected for every store, model and pair of paths.
\<close>

lemma moveSchemaField_never_resolves:
  "settled (fst (moveSchemaField st m origin dest c)) \<noteq> Some (Resolved v)"
  by (simp add: moveSchemaField_rejects reject_def)

text \<open>
  Behind the validations, the move of \<open>a.b\<close> to \<open>a.e\<close> carries the values over and
  removes the origin when there are documents; on the empty collection it resolves without
  the removal, and the origin stays in the schema next to the destination.
\<close>

theorem moveSchemaField_zero_documents_keeps_origin:
  "moveSchemaField memory_store empty_collection ''a.b'' ''a.e'' False
     = reject (ReferenceError ''path is not defined'') empty_collection
   \<and> settled (fst (moveSchemaField_validated memory_store empty_collection ''a.b'' ''a.e'' False))
     = Some (Resolved (JStr ''Field moved successfully''))
   \<and> field_exists (snd (moveSchemaField_validated memory_store empty_collection ''a.b'' ''a.e'' False))
        ''a.b''
   \<and> field_exists (snd (moveSchemaField_validated memory_store empty_collection ''a.b'' ''a.e'' False))
        ''a.e''
   \<and> field_missing (snd (moveSchemaField_validated memory_store array_model ''a.b'' ''a.e'' False))
        ''a.b''
   \<and> docs (snd (moveSchemaField_validated memory_store array_model ''a.b'' ''a.e'' False))
     = [JObj [(''_id'', JNum 1),
              (''a'', JArr [JObj [(''x'', JNum 1), (''e'', JStr ''u'')], JObj [(''e'', JStr ''v'')]])]]"
  by code_simp

section \<open>The resolver as a walk over the segments\<close>

text \<open>
  For the proofs the resolver is restated over the list of the segments that remain,
  and proved equal to the function with the index.
\<close>

definition located :: "schema \<Rightarrow> string \<Rightarrow> string \<Rightarrow> string list \<Rightarrow> lastSchemaAndPaths" where
  "located s cp f sp =
     \<lparr>exists = (objectPath_get (JObj (tree s)) cp \<noteq> JUndef), schema = s, path = cp,
      fullPath = (if f = [] then cp else f @ ''.$[].'' @ cp),
      pathToLast = replace_first ''.$[]'' [] f, subPaths = sp @ [cp]\<rparr>"

fun walk :: "schema \<Rightarrow> string \<Rightarrow> string list \<Rightarrow> string \<Rightarrow> string list \<Rightarrow> error + lastSchemaAndPaths" where
  "walk s cp [] f sp = Inr (located s cp f sp)"
| "walk s cp (x # rest) f sp =
     (if is_array s cp then
        (case st_schema (the (schema_path s cp)) of
           None \<Rightarrow> Inl (TypeError ''Cannot read property path of undefined'')
         | Some child \<Rightarrow>
             walk child x rest (if f = [] then cp else f @ ''.$[].'' @ cp) (sp @ [cp]))
      else walk s (cp @ ''.'' @ x) rest f sp)"

definition after_scan :: "schema \<Rightarrow> string list \<Rightarrow> nat \<Rightarrow> string \<Rightarrow> string \<Rightarrow> string list \<Rightarrow> error + lastSchemaAndPaths" where
  "after_scan s p i cp f sp =
     (let (j, cp') = scan s p i cp
      in if is_array s cp' \<and> Suc j < length p then
           (case st_schema (the (schema_path s cp')) of
              None \<Rightarrow> Inl (TypeError ''Cannot read property path of undefined'')
            | Some child \<Rightarrow>
                getLastSchemaAndPathsRecursive child p (Suc j)
                  (if f = [] then cp' else f @ ''.$[].'' @ cp') (sp @ [cp']))
         else Inr (located s cp' f sp))"

lemma recursive_after_scan:
  "i < length p \<Longrightarrow>
     getLastSchemaAndPathsRecursive s p i f sp = after_scan s p i (p ! i) f sp"
  by (subst getLastSchemaAndPathsRecursive.simps)
     (simp add: after_scan_def located_def split: prod.splits)

lemma after_scan_walk:
  "i < length p \<Longrightarrow> after_scan s p i cp f sp = walk s cp (drop (Suc i) p) f sp"
proof (induction "length p - i" arbitrary: i s cp f sp rule: less_induct)
  case less
  show ?case
  proof (cases "is_array s cp")
    case True
    then have sc: "scan s p i cp = (i, cp)" by (subst scan.simps) simp
    show ?thesis
    proof (cases "Suc i < length p")
      case st: True
      then have dr: "drop (Suc i) p = p ! Suc i # drop (Suc (Suc i)) p"
        by (simp add: Cons_nth_drop_Suc)
      have "length p - Suc i < length p - i" using less.prems by simp
      from less.hyps [OF this st]
      have ih: "after_scan c p (Suc i) (p ! Suc i) g sq = walk c (p ! Suc i) (drop (Suc (Suc i)) p) g sq"
        for c g sq .
      have "after_scan s p i cp f sp =
          (case st_schema (the (schema_path s cp)) of
             None \<Rightarrow> Inl (TypeError ''Cannot read property path of undefined'')
           | Some child \<Rightarrow>
               getLastSchemaAndPathsRecursive child p (Suc i)
                 (if f = [] then cp else f @ ''.$[].'' @ cp) (sp @ [cp]))"
        using True st by (simp add: after_scan_def sc)
      also have "\<dots> =
          (case st_schema (the (schema_path s cp)) of
             None \<Rightarrow> Inl (TypeError ''Cannot read property path of undefined'')
           | Some child \<Rightarrow>
               walk child (p ! Suc i) (drop (Suc (Suc i)) p)
                 (if f = [] then cp else f @ ''.$[].'' @ cp) (sp @ [cp]))"
        using st by (simp only: recursive_after_scan ih)
      also have "\<dots> = walk s cp (drop (Suc i) p) f sp"
        using True by (simp add: dr)
      finally show ?thesis .
    next
      case False
      with less.prems have "drop (Suc i) p = []" by simp
      with True False show ?thesis by (simp add: after_scan_def sc)
    qed
  next
    case False
    show ?thesis
    proof (cases "Suc i < length p")
      case st: True
      then have dr: "drop (Suc i) p = p ! Suc i # drop (Suc (Suc i)) p"
        by (simp add: Cons_nth_drop_Suc)
      from False st have sc: "scan s p i cp = scan s p (Suc i) (cp @ ''.'' @ p ! Suc i)"
        by (subst scan.simps) simp
      have "length p - Suc i < length p - i" using less.prems by simp
      from less.hyps [OF this st]
      have "after_scan s p (Suc i) (cp @ ''.'' @ p ! Suc i) f sp
              = walk s (cp @ ''.'' @ p ! Suc i) (drop (Suc (Suc i)) p) f sp" .
      moreover have "after_scan s p i cp f sp = after_scan s p (Suc i) (cp @ ''.'' @ p ! Suc i) f sp"
        by (simp add: after_scan_def sc)
      ultimately show ?thesis using False by (simp add: dr)
    next
      case nst: False
      with less.prems have dr: "drop (Suc i) p = []" by simp
      from False nst have sc: "scan s p i cp = (Suc i, cp)" by (subst scan.simps) simp
      show ?thesis using False by (simp add: after_scan_def sc dr)
    qed
  qed
qed

lemma getLastSchemaAndPaths_walk:
  "getLastSchemaAndPaths s p = walk s (hd (split_dot p)) (tl (split_dot p)) [] []"
proof -
  have "0 < length (split_dot p)" using split_dot_nonempty [of p] by simp
  then have "getLastSchemaAndPathsRecursive s (split_dot p) 0 [] []
      = walk s (split_dot p ! 0) (drop (Suc 0) (split_dot p)) [] []"
    by (simp only: recursive_after_scan after_scan_walk)
  then show ?thesis
    using split_dot_nonempty [of p]
    by (simp add: getLastSchemaAndPaths_def hd_conv_nth drop_Suc)
qed

definition mark :: "string \<Rightarrow> string \<Rightarrow> string" where
  "mark f h = (if f = [] then h else f @ ''.$[].'' @ h)"

lemma join_Cons: "xs \<noteq> [] \<Longrightarrow> join sep (x # xs) = x @ sep @ join sep xs"
  by (cases xs) auto

lemma walk_structure:
  "walk s cp rest f sp = Inr l \<Longrightarrow>
     \<exists>hs z. subPaths l = sp @ hs @ [path l]
        \<and> descend s hs = Some (lastSchemaAndPaths.schema l)
        \<and> fullPath l = foldl mark f (hs @ [path l])
        \<and> pathToLast l = replace_first ''.$[]'' [] (foldl mark f hs)
        \<and> exists l = (objectPath_get (JObj (tree (lastSchemaAndPaths.schema l))) (path l) \<noteq> JUndef)
        \<and> join ''.'' (hs @ [path l]) = join ''.'' (cp # rest)
        \<and> hd (hs @ [path l]) = cp @ z"
proof (induction s cp rest f sp rule: walk.induct)
  case (1 s cp f sp)
  then have "l = located s cp f sp" by simp
  then show ?case
    by (intro exI [of _ "[]"]) (simp add: located_def mark_def)
next
  case (2 s cp x rest f sp)
  show ?case
  proof (cases "is_array s cp")
    case True
    then obtain t where t: "schema_path s cp = Some t"
      by (auto simp: is_array_def split: option.splits)
    from "2.prems" True obtain child where child: "st_schema (the (schema_path s cp)) = Some child"
      and w: "walk child x rest (if f = [] then cp else f @ ''.$[].'' @ cp) (sp @ [cp]) = Inr l"
      by (auto split: option.splits)
    from "2.IH"(1) [OF True child w] obtain hs z where
      hs: "subPaths l = (sp @ [cp]) @ hs @ [path l]"
        "descend child hs = Some (lastSchemaAndPaths.schema l)"
        "fullPath l = foldl mark (if f = [] then cp else f @ ''.$[].'' @ cp) (hs @ [path l])"
        "pathToLast l = replace_first ''.$[]'' [] (foldl mark (if f = [] then cp else f @ ''.$[].'' @ cp) hs)"
        "exists l = (objectPath_get (JObj (tree (lastSchemaAndPaths.schema l))) (path l) \<noteq> JUndef)"
        "join ''.'' (hs @ [path l]) = join ''.'' (x # rest)"
      by blast
    have "join ''.'' ((cp # hs) @ [path l]) = join ''.'' (cp # x # rest)"
      using hs(6) by (simp add: join_Cons)
    with hs t child show ?thesis
      by (intro exI [of _ "cp # hs"] exI [of _ "[]"]) (simp flip: mark_def)
  next
    case False
    with "2.prems" have w: "walk s (cp @ ''.'' @ x) rest f sp = Inr l" by simp
    from "2.IH"(2) [OF False w] obtain hs z where
      hs: "subPaths l = sp @ hs @ [path l]"
        "descend s hs = Some (lastSchemaAndPaths.schema l)"
        "fullPath l = foldl mark f (hs @ [path l])"
        "pathToLast l = replace_first ''.$[]'' [] (foldl mark f hs)"
        "exists l = (objectPath_get (JObj (tree (lastSchemaAndPaths.schema l))) (path l) \<noteq> JUndef)"
        "join ''.'' (hs @ [path l]) = join ''.'' ((cp @ ''.'' @ x) # rest)"
        "hd (hs @ [path l]) = (cp @ ''.'' @ x) @ z"
      by blast
    have "join ''.'' ((cp @ ''.'' @ x) # rest) = join ''.'' (cp # x # rest)"
      by (cases rest) auto
    with hs show ?thesis
      by (intro exI [of _ hs] exI [of _ "''.'' @ x @ z"]) simp
  qed
qed


section \<open>Schemas that resolve a path alike\<close>

text \<open>
  \<open>alike hs n s s'\<close>: along the hops \<open>hs\<close>, the schemas \<open>s\<close> and \<open>s'\<close> register the same
  arrays at the paths that a walk to a local path of length \<open>n\<close> tests.
\<close>

fun alike :: "string list \<Rightarrow> nat \<Rightarrow> schema \<Rightarrow> schema \<Rightarrow> bool" where
  "alike [] n s s' = (\<forall>q. length q < n \<longrightarrow> is_array s' q = is_array s q)"
| "alike (h # hs) n s s' =
     ((\<forall>q. length q \<le> length h \<longrightarrow> is_array s' q = is_array s q)
      \<and> (case st_schema (the (schema_path s h)) of
           None \<Rightarrow> False
         | Some c \<Rightarrow> (case st_schema (the (schema_path s' h)) of
                       None \<Rightarrow> False
                     | Some c' \<Rightarrow> alike hs n c c')))"

lemma is_array_Some: "is_array s h \<Longrightarrow> \<exists>t. schema_path s h = Some t"
  by (auto simp: is_array_def split: option.splits)

lemma walk_alike:
  "walk s cp rest f sp = Inr l \<Longrightarrow> subPaths l = sp @ hs @ [path l] \<Longrightarrow>
   alike hs (length (path l)) s s' \<Longrightarrow>
     \<exists>own. descend s' hs = Some own
        \<and> walk s' cp rest f sp =
            Inr (l\<lparr>exists := (objectPath_get (JObj (tree own)) (path l) \<noteq> JUndef),
                   lastSchemaAndPaths.schema := own\<rparr>)"
proof (induction s cp rest f sp arbitrary: hs s' rule: walk.induct)
  case (1 s cp f sp)
  then have l: "l = located s cp f sp" by simp
  with "1.prems"(2) have "hs = []" by (simp add: located_def)
  with l show ?case by (simp add: located_def)
next
  case (2 s cp x rest f sp)
  show ?case
  proof (cases "is_array s cp")
    case True
    from "2.prems"(1) True obtain child where child: "st_schema (the (schema_path s cp)) = Some child"
      and w: "walk child x rest (if f = [] then cp else f @ ''.$[].'' @ cp) (sp @ [cp]) = Inr l"
      by (auto split: option.splits)
    from walk_structure [OF w] obtain hs' where hs': "subPaths l = (sp @ [cp]) @ hs' @ [path l]"
      by blast
    with "2.prems"(2) have hs: "hs = cp # hs'" by simp
    with "2.prems"(3) child obtain child' where
      arr': "is_array s' cp" and child': "st_schema (the (schema_path s' cp)) = Some child'"
      and al: "alike hs' (length (path l)) child child'"
      using True by (auto split: option.splits)
    from "2.IH"(1) [OF True child w hs' al] obtain own where
      own: "descend child' hs' = Some own"
        "walk child' x rest (if f = [] then cp else f @ ''.$[].'' @ cp) (sp @ [cp]) =
            Inr (l\<lparr>exists := (objectPath_get (JObj (tree own)) (path l) \<noteq> JUndef),
                   lastSchemaAndPaths.schema := own\<rparr>)"
      by blast
    from arr' obtain t' where "schema_path s' cp = Some t'" using is_array_Some by blast
    with own arr' child' hs show ?thesis by simp
  next
    case False
    with "2.prems"(1) have w: "walk s (cp @ ''.'' @ x) rest f sp = Inr l" by simp
    from walk_structure [OF w] obtain hs0 z where
      hs0: "subPaths l = sp @ hs0 @ [path l]" "hd (hs0 @ [path l]) = (cp @ ''.'' @ x) @ z"
      by blast
    with "2.prems"(2) have same: "hs0 = hs" by simp
    have "is_array s' cp = is_array s cp"
    proof (cases hs)
      case Nil
      with hs0 same have "length cp < length (path l)" by simp
      with "2.prems"(3) Nil show ?thesis by simp
    next
      case (Cons h hs')
      with hs0 same have "length cp \<le> length h" by simp
      with "2.prems"(3) Cons show ?thesis by simp
    qed
    with False have no': "\<not> is_array s' cp" by simp
    from "2.IH"(2) [OF False w "2.prems"(2) "2.prems"(3)] no' show ?thesis by simp
  qed
qed

lemma alike_refl: "descend s hs = Some own \<Longrightarrow> alike hs n s s"
  by (induction hs arbitrary: s) (auto split: option.splits)

lemma alike_trans: "alike hs n s s' \<Longrightarrow> alike hs n s' s'' \<Longrightarrow> alike hs n s s''"
  by (induction hs arbitrary: s s' s'') (auto split: option.splits)

lemma schema_path_set_child:
  "schema_path (set_child s h c) q =
     (case schema_path s q of
        None \<Rightarrow> None
      | Some t \<Rightarrow> Some (if q = h then SType (st_instance t) (Some c) else t))"
proof -
  have "map_of (map (\<lambda>(q, t). if q = h then (q, SType (st_instance t) (Some c)) else (q, t)) kvs) q =
     (case map_of kvs q of
        None \<Rightarrow> None
      | Some t \<Rightarrow> Some (if q = h then SType (st_instance t) (Some c) else t))" for kvs
    by (induction kvs) auto
  then show ?thesis by (simp add: schema_path_def set_child_def)
qed

lemma is_array_set_child: "is_array (set_child s h c) q = is_array s q"
  by (auto simp: is_array_def schema_path_set_child split: option.splits)

lemma tree_set_child: "tree (set_child s h c) = tree s"
  by (simp add: set_child_def)

lemma descend_update_at:
  "descend s hs = Some own \<Longrightarrow> descend (update_at hs g s) hs = Some (g own)"
  by (induction hs arbitrary: s) (auto simp: schema_path_set_child split: option.splits)

lemma alike_update_at:
  "descend s hs = Some own \<Longrightarrow> (\<forall>q. length q < n \<longrightarrow> is_array (g own) q = is_array own q) \<Longrightarrow>
     alike hs n s (update_at hs g s)"
  by (induction hs arbitrary: s)
     (auto simp: schema_path_set_child is_array_set_child split: option.splits)

section \<open>Editing a value below a path\<close>

fun modify_at :: "jsv \<Rightarrow> string list \<Rightarrow> (jsv \<Rightarrow> jsv) \<Rightarrow> jsv" where
  "modify_at v [] g = g v"
| "modify_at v (k # ks) g = store_prop v k (modify_at (get_prop v k) ks g)"

definition del1 :: "string \<Rightarrow> jsv \<Rightarrow> jsv" where
  "del1 k w = (if get_prop w k = JUndef then w else remove_prop w k)"

lemma get_prop_undef [simp]: "get_prop JUndef k = JUndef"
  by simp

lemma get_keys_undef [simp]: "get_keys JUndef ks = JUndef"
  by (cases ks) auto

lemma get_keys_snoc: "get_keys v (ks @ [k]) = get_prop (get_keys v ks) k"
  by (induction ks arbitrary: v) auto

lemma get_keys_append: "get_keys v (ks @ ks') = get_keys (get_keys v ks) ks'"
  by (induction ks arbitrary: v) auto

lemma get_store_same:
  "get_prop v k \<noteq> JUndef \<Longrightarrow> get_prop (store_prop v k x) k = x"
  by (cases v) (auto simp: update_conv' split: option.splits)

lemma store_same: "get_prop v k \<noteq> JUndef \<Longrightarrow> store_prop v k (get_prop v k) = v"
  by (cases v) (auto simp: update_triv split: option.splits)

lemma store_store:
  "get_prop v k \<noteq> JUndef \<Longrightarrow> store_prop (store_prop v k x) k y = store_prop v k y"
  by (cases v) (auto split: option.splits if_splits)

lemma get_modify:
  "get_keys v ks \<noteq> JUndef \<Longrightarrow> get_keys (modify_at v ks g) ks = g (get_keys v ks)"
proof (induction ks arbitrary: v)
  case Nil
  then show ?case by simp
next
  case (Cons k ks)
  then have k: "get_prop v k \<noteq> JUndef" by (auto split: if_splits)
  with Cons have inner: "get_keys (get_prop v k) ks \<noteq> JUndef" by simp
  have "get_prop (store_prop v k (modify_at (get_prop v k) ks g)) k = modify_at (get_prop v k) ks g"
    using k by (rule get_store_same)
  with Cons.IH [OF inner] show ?case
    using k by auto
qed

lemma modify_cong:
  "g (get_keys v ks) = g' (get_keys v ks) \<Longrightarrow> modify_at v ks g = modify_at v ks g'"
proof (induction ks arbitrary: v)
  case Nil
  then show ?case by simp
next
  case (Cons a ks)
  show ?case
    using Cons.IH [of "get_prop v a"] Cons.prems by (cases "get_prop v a = JUndef") auto
qed

lemma modify_id: "get_keys v ks \<noteq> JUndef \<Longrightarrow> modify_at v ks (\<lambda>w. w) = v"
proof (induction ks arbitrary: v)
  case Nil
  then show ?case by simp
next
  case (Cons k ks)
  then have k: "get_prop v k \<noteq> JUndef" by (auto split: if_splits)
  with Cons have "modify_at (get_prop v k) ks (\<lambda>w. w) = get_prop v k" by simp
  with k show ?case by (simp add: store_same)
qed

lemma modify_undef_stays:
  "get_keys v ks \<noteq> JUndef \<Longrightarrow> g (get_keys v ks) \<noteq> JUndef \<Longrightarrow> modify_at v ks g \<noteq> JUndef"
proof (induction ks arbitrary: v)
  case Nil
  then show ?case by simp
next
  case (Cons k ks)
  then have k: "get_prop v k \<noteq> JUndef" by (auto split: if_splits)
  then show ?case by (cases v) (auto split: option.splits if_splits)
qed

lemma modify_modify:
  "get_keys v ks \<noteq> JUndef \<Longrightarrow> g (get_keys v ks) \<noteq> JUndef \<Longrightarrow>
     modify_at (modify_at v ks g) ks g' = modify_at v ks (\<lambda>w. g' (g w))"
proof (induction ks arbitrary: v)
  case Nil
  then show ?case by simp
next
  case (Cons k ks)
  then have k: "get_prop v k \<noteq> JUndef" by (auto split: if_splits)
  with Cons.prems have inner: "get_keys (get_prop v k) ks \<noteq> JUndef"
    "g (get_keys (get_prop v k) ks) \<noteq> JUndef" by auto
  have "get_prop (store_prop v k (modify_at (get_prop v k) ks g)) k = modify_at (get_prop v k) ks g"
    using k by (rule get_store_same)
  with Cons.IH [OF inner] k show ?case by (simp add: store_store)
qed

lemma modify_snoc:
  "modify_at v (ks @ [k]) g = modify_at v ks (\<lambda>w. store_prop w k (g (get_prop w k)))"
  by (induction ks arbitrary: v) auto

lemma del_keys_modify:
  "get_keys v ks \<noteq> JUndef \<Longrightarrow> del_keys v (ks @ [k]) = modify_at v ks (del1 k)"
proof (induction ks arbitrary: v)
  case Nil
  then show ?case by (simp add: del1_def)
next
  case (Cons a ks)
  then have a: "get_prop v a \<noteq> JUndef" by (auto split: if_splits)
  with Cons have "del_keys (get_prop v a) (ks @ [k]) = modify_at (get_prop v a) ks (del1 k)" by simp
  moreover have "del_keys v (a # ks @ [k]) = store_prop v a (del_keys (get_prop v a) (ks @ [k]))"
    using a by (cases "ks @ [k]") auto
  ultimately show ?case by simp
qed

lemma del_keys_missing: "get_keys v ks = JUndef \<Longrightarrow> ks \<noteq> [] \<Longrightarrow> del_keys v ks = v"
proof (induction v ks rule: del_keys.induct)
  case (1 v)
  then show ?case by simp
next
  case (2 v k)
  then show ?case by (auto split: if_splits)
next
  case (3 v k k' ks)
  show ?case
  proof (cases "get_prop v k = JUndef")
    case True
    then show ?thesis by simp
  next
    case False
    with "3.prems" have "get_keys (get_prop v k) (k' # ks) = JUndef" by simp
    with "3.IH" False have "del_keys (get_prop v k) (k' # ks) = get_prop v k" by simp
    with False show ?thesis by (simp add: store_same)
  qed
qed

section \<open>Paths and their segments\<close>


lemma join_split: "join ''.'' (split_dot a) = a"
proof (induction a)
  case Nil
  show ?case by simp
next
  case (Cons c r)
  obtain x xs where sp: "split_dot r = x # xs"
    using split_dot_nonempty [of r] by (cases "split_dot r") auto
  with Cons show ?case by (cases xs) auto
qed


lemma set_join: "h \<in> set hs \<Longrightarrow> set h \<subseteq> set (join sep hs)"
  by (induction sep hs rule: join.induct) auto

lemma pathIsValid_conv:
  "pathIsValid p \<longleftrightarrow>
     \<not> ((\<exists>r. p = CHR ''.'' # r) \<or> (\<exists>r. p = r @ ''.'') \<or> (\<exists>u v. p = u @ ''..'' @ v)
        \<or> CHR ''$'' \<in> set p)"
proof -
  have "str_includes p ''$'' \<longleftrightarrow> CHR ''$'' \<in> set p"
    unfolding str_includes_iff by (auto simp: in_set_conv_decomp)
  then show ?thesis
    unfolding pathIsValid_def charAt_first charAt_last str_includes_iff [of p "''..''"] by simp
qed

lemma pathIsValid_prefix:
  assumes "pathIsValid (a @ ''.'' @ b)"
  shows "pathIsValid a \<and> a \<noteq> [] \<and> CHR ''$'' \<notin> set a \<and> CHR ''$'' \<notin> set b \<and> b \<noteq> []"
proof -
  let ?p = "a @ ''.'' @ b"
  from assms have 1: "\<not> (\<exists>r. ?p = CHR ''.'' # r)" and 2: "\<not> (\<exists>r. ?p = r @ ''.'')"
    and 3: "\<not> (\<exists>u v. ?p = u @ ''..'' @ v)" and 4: "CHR ''$'' \<notin> set ?p"
    unfolding pathIsValid_conv by blast+
  from 1 have a: "a \<noteq> []" by auto
  from 2 have b: "b \<noteq> []" by auto
  have "\<not> (\<exists>r. a = CHR ''.'' # r)" using 1 by auto
  moreover have "\<not> (\<exists>r. a = r @ ''.'')"
  proof
    assume "\<exists>r. a = r @ ''.''"
    then obtain r where "a = r @ ''.''" by blast
    then have "?p = r @ ''..'' @ b" by simp
    with 3 show False by blast
  qed
  moreover have "\<not> (\<exists>u v. a = u @ ''..'' @ v)"
  proof
    assume "\<exists>u v. a = u @ ''..'' @ v"
    then obtain u v where "a = u @ ''..'' @ v" by blast
    then have "?p = u @ ''..'' @ (v @ ''.'' @ b)" by simp
    with 3 show False by blast
  qed
  moreover have "CHR ''$'' \<notin> set a" "CHR ''$'' \<notin> set b" using 4 by auto
  ultimately show ?thesis using a b unfolding pathIsValid_conv by blast
qed

lemma replace_first_none: "CHR ''$'' \<notin> set a \<Longrightarrow> replace_first ''.$[]'' rep a = a"
proof (induction a)
  case Nil
  show ?case by (subst replace_first.simps) simp
next
  case (Cons c r)
  have "take (length ''.$[]'') (c # r) \<noteq> ''.$[]''"
  proof
    assume eq: "take (length ''.$[]'') (c # r) = ''.$[]''"
    have "CHR ''$'' \<in> set (take (length ''.$[]'') (c # r))" unfolding eq by simp
    then have "CHR ''$'' \<in> set (c # r)" by (rule in_set_takeD)
    with Cons.prems show False by simp
  qed
  with Cons show ?case by (subst replace_first.simps) auto
qed


section \<open>The schema after an edit\<close>

lemma map_of_filter_key:
  "map_of (filter (\<lambda>(q, t). P q) kvs) k = (if P k then map_of kvs k else None)"
  by (induction kvs) auto

lemma schema_path_schema_remove:
  "schema_path (schema_remove s x) q =
     (if q \<noteq> x \<and> take (Suc (length x)) q \<noteq> x @ ''.'' then schema_path s q else None)"
  unfolding schema_path_def schema_remove_def
  using map_of_filter_key [of "\<lambda>q. q \<noteq> x \<and> take (Suc (length x)) q \<noteq> x @ ''.''" "paths s" q]
  by simp

lemma schema_path_schema_remove_short:
  "length q < length x \<Longrightarrow> schema_path (schema_remove s x) q = schema_path s q"
  by (auto simp: schema_path_schema_remove)

lemma tree_schema_remove:
  "tree (schema_remove s x) = members (objectPath_del (JObj (tree s)) x)"
  by (simp add: schema_remove_def)

lemma tree_loop_descend:
  "descend s hs = Some own \<Longrightarrow> descend (fst (tree_loop edit s (hs @ [lp]))) hs = Some own"
proof (induction hs arbitrary: s)
  case Nil
  then show ?case by simp
next
  case (Cons h hs)
  then obtain t c where t: "schema_path s h = Some t" "st_schema t = Some c"
    and d: "descend c hs = Some own"
    by (auto split: option.splits)
  obtain q r where qr: "hs @ [lp] = q # r" by (cases "hs @ [lp]") auto
  show ?case
  proof (cases "edit (JObj (tree s)) (join ''.0.'' (h # q # r))")
    case (Inl e)
    with Cons.prems qr show ?thesis by simp
  next
    case (Inr t')
    have sp: "schema_path (Schema (members t') (paths s)) h = Some t"
      using t by (simp add: schema_path_def)
    from Cons.IH [OF d] have "descend (fst (tree_loop edit c (q # r))) hs = Some own"
      by (simp add: qr)
    with Inr sp t qr show ?thesis
      by (simp add: schema_path_set_child)
  qed
qed

lemma tree_loop_alike:
  "descend s hs = Some own \<Longrightarrow> alike hs n s (fst (tree_loop edit s (hs @ [lp])))"
proof (induction hs arbitrary: s)
  case Nil
  then show ?case by simp
next
  case (Cons h hs)
  then obtain t c where t: "schema_path s h = Some t" "st_schema t = Some c"
    and d: "descend c hs = Some own"
    by (auto split: option.splits)
  obtain q r where qr: "hs @ [lp] = q # r" by (cases "hs @ [lp]") auto
  show ?case
  proof (cases "edit (JObj (tree s)) (join ''.0.'' (h # q # r))")
    case (Inl e)
    with qr have same: "fst (tree_loop edit s ((h # hs) @ [lp])) = s" by simp
    from Cons.prems have "alike (h # hs) n s s" by (rule alike_refl)
    then show ?thesis unfolding same .
  next
    case (Inr t')
    have sp: "schema_path (Schema (members t') (paths s)) q' = schema_path s q'" for q'
      by (simp add: schema_path_def)
    have arr: "is_array (Schema (members t') (paths s)) q' = is_array s q'" for q'
      by (simp add: is_array_def sp)
    from Cons.IH [OF d] have "alike hs n c (fst (tree_loop edit c (q # r)))"
      by (simp add: qr)
    with Inr sp t qr arr show ?thesis
      by (simp add: schema_path_set_child is_array_set_child)
  qed
qed

lemma tree_loop_ok:
  "descend s hs = Some own \<Longrightarrow> (\<And>t p. \<exists>t'. edit t p = Inr t') \<Longrightarrow>
     snd (tree_loop edit s (hs @ [lp])) = None"
proof (induction hs arbitrary: s)
  case Nil
  then show ?case by simp
next
  case (Cons h hs)
  then obtain t c where t: "schema_path s h = Some t" "st_schema t = Some c"
    and d: "descend c hs = Some own"
    by (auto split: option.splits)
  obtain q r where qr: "hs @ [lp] = q # r" by (cases "hs @ [lp]") auto
  from Cons.prems(2) obtain t' where t': "edit (JObj (tree s)) (join ''.0.'' (h # q # r)) = Inr t'"
    by blast
  have sp: "schema_path (Schema (members t') (paths s)) h = Some t"
    using t by (simp add: schema_path_def)
  from Cons.IH [OF d Cons.prems(2)] have "snd (tree_loop edit c (q # r)) = None"
    by (simp add: qr)
  with t' sp t qr show ?case by simp
qed

section \<open>What a removal by the schema library may do\<close>

definition removes_at_most :: "(schema \<Rightarrow> string \<Rightarrow> schema) \<Rightarrow> bool" where
  \<comment> \<open>Of the tree, the function deletes the node at the path or nothing; of the
      registered types, it leaves every one as it is or drops it, and it leaves those at
      paths shorter than the path.\<close>
  "removes_at_most rm =
     (\<forall>s p. (tree (rm s p) = tree s
              \<or> tree (rm s p) = members (objectPath_del (JObj (tree s)) p))
            \<and> (\<forall>q. schema_path (rm s p) q = schema_path s q
                     \<or> (length p \<le> length q \<and> schema_path (rm s p) q = None)))"

definition removes_registered :: "(schema \<Rightarrow> string \<Rightarrow> schema) \<Rightarrow> bool" where
  \<comment> \<open>The node at a path with a registered type is deleted from the tree.\<close>
  "removes_registered rm =
     (\<forall>s p. schema_path s p \<noteq> None
              \<longrightarrow> tree (rm s p) = members (objectPath_del (JObj (tree s)) p))"


definition removes_nested :: "(schema \<Rightarrow> string \<Rightarrow> schema) \<Rightarrow> bool" where
  \<comment> \<open>The node at any path is deleted from the tree, a subdocument too.\<close>
  "removes_nested rm =
     (\<forall>s p. tree (rm s p) = members (objectPath_del (JObj (tree s)) p))"

lemma remove_tree_cases:
  "removes_at_most rm \<Longrightarrow>
     tree (rm s p) = tree s \<or> tree (rm s p) = members (objectPath_del (JObj (tree s)) p)"
  by (simp add: removes_at_most_def)

lemma remove_path_cases:
  "removes_at_most rm \<Longrightarrow>
     schema_path (rm s p) q = schema_path s q \<or> schema_path (rm s p) q = None"
  unfolding removes_at_most_def by metis


lemma remove_path_short:
  "removes_at_most rm \<Longrightarrow> length q < length p \<Longrightarrow> schema_path (rm s p) q = schema_path s q"
  unfolding removes_at_most_def by (metis not_le)

lemma remove_is_array_short:
  "removes_at_most rm \<Longrightarrow> length q < length p \<Longrightarrow> is_array (rm s p) q = is_array s q"
  by (simp add: is_array_def remove_path_short)

lemma remove_is_array:
  "removes_at_most rm \<Longrightarrow> is_array (rm s p) q \<Longrightarrow> is_array s q"
  using remove_path_cases [of rm s p q] by (auto simp: is_array_def)

lemma alike_remove:
  assumes "removes_at_most rm" "descend s hs = Some own"
    and "hs = [] \<Longrightarrow> n \<le> length x"
    and "\<And>h hs'. hs = h # hs' \<Longrightarrow> length h < length x"
  shows "alike hs n s (rm s x)"
proof (cases hs)
  case Nil
  with assms(1,3) show ?thesis by (simp add: remove_is_array_short)
next
  case (Cons h hs')
  with assms(4) have short: "length h < length x" by simp
  from assms(2) Cons obtain t c where t: "schema_path s h = Some t" "st_schema t = Some c"
    and d: "descend c hs' = Some own"
    by (auto split: option.splits)
  from d have "alike hs' n c c" by (rule alike_refl)
  with Cons short t assms(1) show ?thesis
    by (simp add: remove_is_array_short remove_path_short)
qed

lemma descend_remove:
  "removes_at_most rm \<Longrightarrow> descend s (h # hs) = Some own \<Longrightarrow> length h < length x \<Longrightarrow>
     descend (rm s x) (h # hs) = Some own"
  by (simp add: remove_path_short)

lemma schema_remove_at_most: "removes_at_most schema_remove"
  unfolding removes_at_most_def
proof (intro allI conjI)
  fix s p q
  show "tree (schema_remove s p) = tree s
      \<or> tree (schema_remove s p) = members (objectPath_del (JObj (tree s)) p)"
    by (simp add: tree_schema_remove)
  show "schema_path (schema_remove s p) q = schema_path s q
      \<or> (length p \<le> length q \<and> schema_path (schema_remove s p) q = None)"
  proof (cases "length q < length p")
    case True
    then show ?thesis by (simp add: schema_path_schema_remove_short)
  next
    case False
    then show ?thesis by (simp add: schema_path_schema_remove)
  qed
qed

lemma schema_remove_nested: "removes_nested schema_remove"
  by (simp add: removes_nested_def tree_schema_remove)

lemma schema_remove_registered: "removes_registered schema_remove"
  by (simp add: removes_registered_def tree_schema_remove)

lemma remove_registered_at_most: "removes_at_most remove_registered"
  unfolding removes_at_most_def
proof (intro allI conjI)
  fix s p q
  show "tree (remove_registered s p) = tree s
      \<or> tree (remove_registered s p) = members (objectPath_del (JObj (tree s)) p)"
    by (simp add: remove_registered_def)
  show "schema_path (remove_registered s p) q = schema_path s q
      \<or> (length p \<le> length q \<and> schema_path (remove_registered s p) q = None)"
    using map_of_filter_key [of "\<lambda>q. q \<noteq> p" "paths s" q]
    by (auto simp: remove_registered_def schema_path_def)
qed

lemma remove_registered_registered: "removes_registered remove_registered"
  by (simp add: removes_registered_def remove_registered_def schema_path_def)


section \<open>A removal that resolves\<close>

definition removed :: "(schema \<Rightarrow> string \<Rightarrow> schema) \<Rightarrow> schema \<Rightarrow> lastSchemaAndPaths \<Rightarrow> schema" where
  \<comment> \<open>The schema after the edits of \<open>removeSchemaField\<close> that come before the test of
      \<open>removeSubdocumentIfEmpty\<close>, for the \<open>remove\<close> of the schema library given.\<close>
  "removed rm r l =
     fst (tree_loop (\<lambda>t p. Inr (objectPath_del t p))
            (update_at (butlast (subPaths l)) (\<lambda>s. rm s (path l))
               (rm r (fullPath l)))
            (subPaths l))"

definition unset_filter :: "lastSchemaAndPaths \<Rightarrow> jsv" where
  "unset_filter l =
     JObj (if pathToLast l \<noteq> [] then [(pathToLast l, JObj [(''$gt'', JArr [])])] else [])"

definition unset_update :: "lastSchemaAndPaths \<Rightarrow> jsv" where
  "unset_update l = JObj [(''$unset'', JObj [(fullPath l, JNum 1)])]"

lemma remove_resolved_plain:
  assumes "pathIsValid p" "getLastSchemaAndPaths (schema m) p = Inr l" "exists l"
    and "st_update st (unset_filter l) (unset_update l) (docs m) = Inr ds"
    and "snd (tree_loop (\<lambda>t p. Inr (objectPath_del t p))
            (update_at (butlast (subPaths l)) (\<lambda>s. st_remove st s (path l))
               (st_remove st (schema m) (fullPath l)))
            (subPaths l)) = None"
  shows "removeSchemaField st m p False =
           ([BulkUpdate True, Settle (Resolved (JStr ''Field removed successfully''))],
            \<lparr>schema = removed (st_remove st) (schema m) l, docs = ds\<rparr>)"
  using assms
  by (subst removeSchemaField.simps)
     (auto simp add: then_promise_def model_update_def update_owner_def removed_def resolve_def
        store_events_def unset_filter_def unset_update_def split: prod.splits)





lemma settled_store_events:
  "settled (store_events es @ Settle out # es') = Some out"
proof (induction es)
  case Nil
  show ?case by (simp add: store_events_def)
next
  case (Cons e es)
  then show ?case by (cases e) (simp_all add: store_events_def)
qed


section \<open>The hops of a valid path\<close>

lemma foldl_mark_longer: "h \<noteq> [] \<Longrightarrow> length h \<le> length (foldl mark h xs)"
proof (induction xs arbitrary: h)
  case Nil
  show ?case by simp
next
  case (Cons x xs)
  have "mark h x \<noteq> []" using Cons.prems by (simp add: mark_def)
  from Cons.IH [OF this] have "length (mark h x) \<le> length (foldl mark (mark h x) xs)" .
  moreover have "length h \<le> length (mark h x)" using Cons.prems by (simp add: mark_def)
  ultimately show ?case by simp
qed

lemma foldl_mark_strictly_longer:
  "h \<noteq> [] \<Longrightarrow> xs \<noteq> [] \<Longrightarrow> length h < length (foldl mark h xs)"
proof (cases xs)
  case Nil
  assume "xs \<noteq> []"
  with Nil show ?thesis by simp
next
  case (Cons x xs')
  assume h: "h \<noteq> []"
  then have "mark h x \<noteq> []" by (simp add: mark_def)
  from foldl_mark_longer [OF this]
  have "length (mark h x) \<le> length (foldl mark (mark h x) xs')" .
  moreover have "length h < length (mark h x)" using h by (simp add: mark_def)
  ultimately show ?thesis using Cons by simp
qed

lemma join_empty_hop:
  "[] \<in> set hs \<Longrightarrow>
     (\<exists>r. join ''.'' (hs @ [lp]) = CHR ''.'' # r) \<or> (\<exists>u v. join ''.'' (hs @ [lp]) = u @ ''..'' @ v)"
proof (induction hs)
  case Nil
  then show ?case by simp
next
  case (Cons h hs)
  have j: "join ''.'' ((h # hs) @ [lp]) = h @ ''.'' @ join ''.'' (hs @ [lp])"
    by (simp add: join_Cons)
  show ?case
  proof (cases "h = []")
    case True
    with j show ?thesis by simp
  next
    case False
    with Cons.prems have "[] \<in> set hs" by auto
    from Cons.IH [OF this] show ?thesis
    proof
      assume "\<exists>r. join ''.'' (hs @ [lp]) = CHR ''.'' # r"
      then obtain r where "join ''.'' (hs @ [lp]) = CHR ''.'' # r" ..
      with j have "join ''.'' ((h # hs) @ [lp]) = h @ ''..'' @ r" by simp
      then show ?thesis by blast
    next
      assume "\<exists>u v. join ''.'' (hs @ [lp]) = u @ ''..'' @ v"
      then obtain u v where "join ''.'' (hs @ [lp]) = u @ ''..'' @ v" by blast
      with j have "join ''.'' ((h # hs) @ [lp]) = (h @ ''.'' @ u) @ ''..'' @ v" by simp
      then show ?thesis by blast
    qed
  qed
qed

lemma hops_valid:
  assumes "pathIsValid p" "join ''.'' (hs @ [lp]) = p"
  shows "\<forall>h\<in>set hs. h \<noteq> [] \<and> CHR ''$'' \<notin> set h"
proof
  fix h assume h: "h \<in> set hs"
  then have "h \<in> set (hs @ [lp])" by simp
  from set_join [OF this, of "''.''"] assms(2) have "set h \<subseteq> set p" by simp
  moreover from assms(1) have "CHR ''$'' \<notin> set p" by (simp add: pathIsValid_conv)
  ultimately have 1: "CHR ''$'' \<notin> set h" by auto
  have "h \<noteq> []"
  proof
    assume "h = []"
    with h have "[] \<in> set hs" by simp
    from join_empty_hop [OF this, of lp] assms show False
      by (simp add: pathIsValid_conv)
  qed
  with 1 show "h \<noteq> [] \<and> CHR ''$'' \<notin> set h" by simp
qed




section \<open>Deleting the only field of a subdocument\<close>









lemma foldl_mark_hop:
  assumes "h \<noteq> []"
  shows "length h < length (foldl mark [] ((h # hs) @ [lp]))"
proof -
  have "foldl mark [] ((h # hs) @ [lp]) = foldl mark h (hs @ [lp])" by (simp add: mark_def)
  with foldl_mark_strictly_longer [OF assms, of "hs @ [lp]"] show ?thesis by simp
qed

lemma removed_facts:
  assumes cont: "removes_at_most rm"
    and d: "descend r hs = Some own"
    and sub: "subPaths l = hs @ [lp]" "path l = lp"
    and fp: "fullPath l = foldl mark [] (hs @ [lp])"
    and hops: "\<forall>h\<in>set hs. h \<noteq> []"
    and n: "n \<le> length lp"
  shows "snd (tree_loop (\<lambda>t p. Inr (objectPath_del t p))
            (update_at (butlast (subPaths l)) (\<lambda>s. rm s (path l))
               (rm r (fullPath l)))
            (subPaths l)) = None"
    and "alike hs n r (removed rm r l)"
    and "descend (removed rm r l) hs =
           Some (if hs = [] then rm (rm own lp) lp else rm own lp)"
proof -
  let ?del = "\<lambda>t p. Inr (objectPath_del t p) :: error + jsv"
  let ?ra = "rm r (fullPath l)"
  let ?rb = "update_at hs (\<lambda>s. rm s lp) ?ra"
  have bl: "butlast (subPaths l) = hs" using sub by simp
  have short: "length h < length (fullPath l)" if "hs = h # hs'" for h hs'
    using that hops fp foldl_mark_hop [of h hs' lp] by simp
  have fp0: "fullPath l = lp" if "hs = []" using that fp by (simp add: mark_def)
  have da: "descend ?ra hs = Some (if hs = [] then rm own lp else own)"
  proof (cases hs)
    case Nil
    with d fp0 show ?thesis by simp
  next
    case (Cons h hs')
    with d short [OF Cons] show ?thesis
      using descend_remove [OF cont, of r h hs' own "fullPath l"] by simp
  qed
  have db: "descend ?rb hs = Some (if hs = [] then rm (rm own lp) lp else rm own lp)"
    using descend_update_at [OF da, of "\<lambda>s. rm s lp"] by (simp split: if_splits)
  have rmd: "removed rm r l = fst (tree_loop ?del ?rb (hs @ [lp]))"
    by (simp add: removed_def bl sub)
  show "snd (tree_loop ?del
            (update_at (butlast (subPaths l)) (\<lambda>s. rm s (path l)) ?ra)
            (subPaths l)) = None"
    unfolding sub butlast_snoc by (rule tree_loop_ok [OF db]) simp
  show "descend (removed rm r l) hs = Some (if hs = [] then rm (rm own lp) lp else rm own lp)"
    unfolding rmd using db by (rule tree_loop_descend)
  have a1: "alike hs n r ?ra"
  proof (rule alike_remove [OF cont d])
    assume "hs = []"
    with fp0 n show "n \<le> length (fullPath l)" by simp
  next
    fix h hs' assume "hs = h # hs'"
    then show "length h < length (fullPath l)" by (rule short)
  qed
  have a2: "alike hs n ?ra ?rb"
  proof (rule alike_update_at [OF da], intro allI impI)
    fix q :: string assume "length q < n"
    with n have "length q < length lp" by simp
    with cont show "is_array (rm (if hs = [] then rm own lp else own) lp) q
        = is_array (if hs = [] then rm own lp else own) q"
      by (rule remove_is_array_short)
  qed
  have a3: "alike hs n ?rb (removed rm r l)"
    unfolding rmd using db by (rule tree_loop_alike)
  from a1 a2 a3 show "alike hs n r (removed rm r l)"
    by (blast intro: alike_trans)
qed





section \<open>The removal with \<open>removeSubdocumentIfEmpty\<close>\<close>

definition deep_model :: model where
  \<comment> \<open>A subdocument \<open>s\<close> with one field below three arrays of subdocuments.\<close>
  "deep_model =
     \<lparr>schema = schema_add empty_schema
         (JObj [(''a'', JArr [JObj [(''b'', JArr [JObj [(''c'',
                   JArr [JObj [(''s'', JObj [(''d'', JFun ''String'')])]])]])]])]),
      docs = []\<rparr>"




section \<open>Setting a new member and deleting it\<close>

lemma delete_absent: "map_of kvs k = None \<Longrightarrow> AList.delete k kvs = kvs"
  by (induction kvs) (auto split: if_splits)

lemma del1_absent: "map_of kvs k = None \<Longrightarrow> del1 k (JObj kvs) = JObj kvs"
  by (simp add: del1_def)

lemma del1_store_absent:
  "map_of kvs k = None \<Longrightarrow> x \<noteq> JUndef \<Longrightarrow> del1 k (store_prop (JObj kvs) k x) = JObj kvs"
  by (simp add: del1_def update_conv' delete_update_same delete_absent)

lemma assignable_prop: "get_prop v a \<noteq> JUndef \<Longrightarrow> assignable v"
  by (cases v) auto

lemma set_keys_modify:
  "get_keys v ks \<noteq> JUndef \<Longrightarrow> assignable (get_keys v ks) \<Longrightarrow>
     set_keys v (ks @ [k]) x = Inr (modify_at v ks (\<lambda>w. store_prop w k x))"
proof (induction ks arbitrary: v)
  case Nil
  then show ?case by (simp add: put_def)
next
  case (Cons a ks)
  from Cons.prems(1) have a: "get_prop v a \<noteq> JUndef" by (auto split: if_splits)
  with Cons.prems have 1: "get_keys (get_prop v a) ks \<noteq> JUndef"
    and 2: "assignable (get_keys (get_prop v a) ks)" by simp_all
  obtain b r where br: "ks @ [k] = b # r" by (cases "ks @ [k]") auto
  have "set_keys v (a # b # r) x =
      (case set_keys (get_prop v a) (b # r) x of Inl e \<Rightarrow> Inl e | Inr w \<Rightarrow> put v a w)"
    using a by simp
  also have "set_keys (get_prop v a) (b # r) x
      = Inr (modify_at (get_prop v a) ks (\<lambda>w. store_prop w k x))"
    using Cons.IH [OF 1 2] br by simp
  finally show ?case
    using br assignable_prop [OF a] by (simp add: put_def)
qed

lemma del_new_member:
  assumes "get_keys T ks = JObj kvs" "map_of kvs k = None" "X (JObj kvs) \<noteq> JUndef"
  shows "del_keys (modify_at T ks (\<lambda>w. store_prop w k (X w))) (ks @ [k]) = T"
proof -
  let ?g = "\<lambda>w. store_prop w k (X w)"
  from assms have w: "get_keys T ks \<noteq> JUndef" by simp
  have s: "?g (get_keys T ks) \<noteq> JUndef" using assms by simp
  have "get_keys (modify_at T ks ?g) ks \<noteq> JUndef" using w s by (simp add: get_modify)
  then have "del_keys (modify_at T ks ?g) (ks @ [k]) = modify_at (modify_at T ks ?g) ks (del1 k)"
    by (rule del_keys_modify)
  also have "\<dots> = modify_at T ks (\<lambda>w. del1 k (?g w))"
    using w s by (rule modify_modify)
  also have "\<dots> = modify_at T ks (\<lambda>w. w)"
    using assms del1_store_absent [of kvs k "X (JObj kvs)"] by (intro modify_cong) simp
  also have "\<dots> = T" using w by (rule modify_id)
  finally show ?thesis .
qed

lemma del_absent:
  assumes "get_keys T ks = JObj kvs" "map_of kvs k = None"
  shows "del_keys T (ks @ [k]) = T"
proof -
  from assms have w: "get_keys T ks \<noteq> JUndef" by simp
  then have "del_keys T (ks @ [k]) = modify_at T ks (del1 k)" by (rule del_keys_modify)
  also have "\<dots> = modify_at T ks (\<lambda>w. w)"
    using assms by (intro modify_cong) (simp add: del1_absent)
  also have "\<dots> = T" using w by (rule modify_id)
  finally show ?thesis .
qed

fun nest :: "string list \<Rightarrow> jsv \<Rightarrow> jsv" where
  \<comment> \<open>The object \<open>{s1: {s2: ... {k: d}}}\<close>.\<close>
  "nest [] d = d"
| "nest (s # r) d = JObj [(s, nest r d)]"

lemma odd_part_below: "n < b \<Longrightarrow> 0 < b \<Longrightarrow> odd_part n < b"
proof (induction n rule: odd_part.induct)
  case (1 n)
  show ?case
  proof (cases "n \<le> 0 \<or> odd n")
    case True
    with "1.prems" show ?thesis by (subst odd_part.simps) simp
  next
    case False
    then have "n div 2 \<le> n" by (auto elim!: evenE)
    with "1.prems" have "n div 2 < b" by simp
    from "1.IH" [OF False this "1.prems"(2)] False show ?thesis
      by (subst odd_part.simps) simp
  qed
qed

lemma index_key_number: "index_key k = Some i \<Longrightarrow> number_key k"
proof -
  assume "index_key k = Some i"
  then have c: "canonical k" and d: "decimal k < 4294967295"
    by (simp_all add: index_key_def split: if_splits)
  from c have "hd k \<noteq> CHR ''-''" "k \<noteq> ''-0''"
    by (cases k; auto simp: canonical_def is_digit_def)+
  moreover from d have "odd_part (decimal k) < 9007199254740992"
    by (intro odd_part_below) simp_all
  ultimately show ?thesis using c d by (simp add: number_key_def)
qed

lemma plain_key: "\<not> number_key k \<Longrightarrow> index_key k = None"
  using index_key_number [of k] by (cases "index_key k") auto

lemma set_keys_nest:
  "segs \<noteq> [] \<Longrightarrow> \<forall>s\<in>set (tl segs). \<not> number_key s \<Longrightarrow>
     set_keys (JObj []) segs d = Inr (nest segs d)"
proof (induction segs)
  case Nil
  then show ?case by simp
next
  case (Cons s r)
  show ?case
  proof (cases r)
    case Nil
    then show ?thesis by (simp add: put_def)
  next
    case (Cons s' r')
    with Cons.prems have 1: "\<not> number_key s'" and 2: "\<forall>s\<in>set (tl r). \<not> number_key s"
      by simp_all
    from Cons.IH [OF _ 2] Cons have "set_keys (JObj []) (s' # r') d = Inr (nest (s' # r') d)"
      by simp
    with Cons 1 show ?thesis by (simp add: put_def)
  qed
qed

lemma is_nested_nest: "s \<noteq> ''type'' \<Longrightarrow> is_nested (nest (s # r) d)"
  by (simp add: is_nested_def)

definition added :: "jsv \<Rightarrow> string \<Rightarrow> jsv \<Rightarrow> jsv" where
  \<comment> \<open>The member \<open>k\<close> of \<open>w\<close> once \<open>schema.add\<close> has merged the definition \<open>d\<close> into it.\<close>
  "added d k w =
     (if is_nested d then JObj (merge_into (members (get_prop w k)) (members d)) else d)"

lemma merge_nest:
  assumes "\<forall>s\<in>set (tl (ks @ [k])). s \<noteq> ''type'' \<and> \<not> number_key s"
    and "get_keys (JObj t) ks = JObj kvs"
  shows "JObj (merge_into t (members (nest (ks @ [k]) d)))
           = modify_at (JObj t) ks (\<lambda>w. store_prop w k (added d k w))"
  using assms
proof (induction ks arbitrary: t)
  case Nil
  then show ?case by (simp add: added_def)
next
  case (Cons s ks)
  obtain s' r where sr: "ks @ [k] = s' # r" by (cases "ks @ [k]") auto
  with Cons.prems(1) have s': "s' \<noteq> ''type''" "index_key s' = None"
    and rest: "\<forall>s\<in>set (tl (ks @ [k])). s \<noteq> ''type'' \<and> \<not> number_key s"
    by (simp_all add: plain_key)
  have nested: "is_nested (nest (ks @ [k]) d)" using sr s'(1) by (simp add: is_nested_def)
  have "\<exists>ts. get_prop (JObj t) s = JObj ts"
  proof (cases ks)
    case Nil
    with Cons.prems(2) show ?thesis by (simp split: if_splits)
  next
    case (Cons a ks')
    with sr have a: "a = s'" by simp
    from Cons.prems(2) Cons have g: "get_prop (get_prop (JObj t) s) a \<noteq> JUndef"
      by (auto split: if_splits)
    show ?thesis
    proof (cases "get_prop (JObj t) s")
      case (JArr xs)
      with g a s'(2) show ?thesis by simp
    qed (use g in simp_all)
  qed
  then obtain ts where ts: "get_prop (JObj t) s = JObj ts" ..
  with Cons.prems(2) have "get_keys (JObj ts) ks = JObj kvs" by (simp split: if_splits)
  from Cons.IH [OF rest this]
  have ih: "JObj (merge_into ts (members (nest (ks @ [k]) d)))
      = modify_at (JObj ts) ks (\<lambda>w. store_prop w k (added d k w))" .
  have "merge_into t (members (nest ((s # ks) @ [k]) d))
      = AList.update s (JObj (merge_into ts (members (nest (ks @ [k]) d)))) t"
    using nested ts by simp
  then show ?case using ih ts by simp
qed

section \<open>The types that an addition registers\<close>

lemma types_of_length:
  "(key, ty) \<in> set (types_of pre kvs) \<Longrightarrow> \<exists>k\<in>fst ` set kvs. length pre + length k \<le> length key"
proof (induction pre kvs rule: types_of.induct)
  case (1 pre)
  then show ?case by simp
next
  case (2 pre k v r)
  from "2.prems" consider
    (nested) "is_nested v" "(key, ty) \<in> set (types_of (pre @ k @ ''.'') (members v))"
    | (leaf) "\<not> is_nested v" "key = pre @ k"
    | (rest) "(key, ty) \<in> set (types_of pre r)"
    by (auto split: if_splits)
  then show ?case
  proof cases
    case nested
    from "2.IH"(1) [OF nested] have "length pre + length k \<le> length key" by auto
    then show ?thesis by simp
  next
    case leaf
    then show ?thesis by simp
  next
    case rest
    from "2.IH"(3) [OF rest] show ?thesis by auto
  qed
qed

lemma types_of_nest_length:
  "segs \<noteq> [] \<Longrightarrow> \<forall>s\<in>set (tl segs). s \<noteq> ''type'' \<Longrightarrow>
   (key, ty) \<in> set (types_of pre (members (nest segs d))) \<Longrightarrow>
     length pre + length (join ''.'' segs) \<le> length key"
proof (induction segs arbitrary: pre)
  case Nil
  then show ?case by simp
next
  case (Cons s r)
  show ?case
  proof (cases r)
    case Nil
    with Cons.prems(3) types_of_length [of key ty pre "[(s, d)]"] show ?thesis by simp
  next
    case (Cons s' r')
    with Cons.prems(2) have s': "s' \<noteq> ''type''" and rest: "\<forall>s\<in>set (tl r). s \<noteq> ''type''"
      by simp_all
    have "is_nested (nest r d)" using Cons s' by (simp add: is_nested_def)
    with Cons.prems(3) have "(key, ty) \<in> set (types_of (pre @ s @ ''.'') (members (nest r d)))"
      by simp
    from Cons.IH [OF _ rest this] Cons
    have "length (pre @ s @ ''.'') + length (join ''.'' r) \<le> length key" by simp
    with Cons show ?thesis by simp
  qed
qed

lemma map_of_fold_update:
  "q \<notin> fst ` set new \<Longrightarrow> map_of (fold (\<lambda>(p, t). AList.update p t) new old) q = map_of old q"
  by (induction new arbitrary: old) (auto simp: update_conv')

lemma tree_schema_add: "tree (schema_add s obj) = merge_into (tree s) (members obj)"
  by (simp add: schema_add_def)

lemma is_array_schema_add_short:
  assumes "segs \<noteq> []" "\<forall>s\<in>set (tl segs). s \<noteq> ''type''" "length q < length (join ''.'' segs)"
  shows "is_array (schema_add s (nest segs d)) q = is_array s q"
proof -
  have "q \<notin> fst ` set (types_of [] (members (nest segs d)))"
  proof
    assume "q \<in> fst ` set (types_of [] (members (nest segs d)))"
    then obtain ty where "(q, ty) \<in> set (types_of [] (members (nest segs d)))" by auto
    from types_of_nest_length [OF assms(1,2) this] assms(3) show False by simp
  qed
  then have "schema_path (schema_add s (nest segs d)) q = schema_path s q"
    by (simp add: schema_path_def schema_add_def map_of_fold_update)
  then show ?thesis by (simp add: is_array_def)
qed

section \<open>The trees on the way to the owning schema\<close>

fun trees_along :: "schema \<Rightarrow> string list \<Rightarrow> (string \<times> jsv) list list" where
  \<comment> \<open>The tree of the schema and of every schema reached by the hops, in this order.\<close>
  "trees_along s [] = [tree s]"
| "trees_along s (h # hs) =
     tree s # (case schema_path s h of
                 None \<Rightarrow> []
               | Some t \<Rightarrow> (case st_schema t of None \<Rightarrow> [] | Some c \<Rightarrow> trees_along c hs))"

lemma set_child_twice: "set_child (Schema t (paths (set_child s h c))) h c' = set_child (Schema t (paths s)) h c'"
  by (auto simp: set_child_def)

lemma loop_step:
  assumes "schema_path s h = Some t"
    and "edit (JObj (tree s)) (join ''.0.'' (h # hs @ [lp])) = Inr t'"
  shows "tree_loop edit (set_child s h c') (h # hs @ [lp]) =
           (set_child (Schema (members t') (paths s)) h (fst (tree_loop edit c' (hs @ [lp]))),
            snd (tree_loop edit c' (hs @ [lp])))"
proof -
  obtain q r where qr: "hs @ [lp] = q # r" by (cases "hs @ [lp]") auto
  have sp: "schema_path (Schema (members t') (paths (set_child s h c'))) h
      = Some (SType (st_instance t) (Some c'))"
    using assms(1) schema_path_set_child [of s h c' h] by (simp add: schema_path_def)
  show ?thesis
    using assms(2) sp by (simp add: qr tree_set_child set_child_twice)
qed

lemma trees_along_set_child:
  "schema_path s h = Some t \<Longrightarrow>
     trees_along (set_child (Schema t' (paths s)) h c) (h # hs) = t' # trees_along c hs"
  using schema_path_set_child [of "Schema t' (paths s)" h c h]
  by (simp add: tree_set_child schema_path_def)

section \<open>A path that is free in a tree\<close>

definition vacant :: "(string \<times> jsv) list \<Rightarrow> string \<Rightarrow> bool" where
  \<comment> \<open>The path is new in the tree: what its segments before the last lead to is an
      object, which has no member of the name of the last segment.\<close>
  "vacant t pth =
     (case get_keys (JObj t) (butlast (split_dot pth)) of
        JObj kvs \<Rightarrow> map_of kvs (last (split_dot pth)) = None
      | _ \<Rightarrow> False)"

fun holds_array :: "jsv \<Rightarrow> bool" where
  "holds_array (JArr xs) = True"
| "holds_array v = False"

fun copies_vacant :: "schema \<Rightarrow> string list \<Rightarrow> string \<Rightarrow> bool" where
  \<comment> \<open>In the tree of every schema before the owning one, the array of the next hop is
      written as an array, and the path to the field through the first elements is free.\<close>
  "copies_vacant s [] lp = True"
| "copies_vacant s (h # hs) lp =
     (vacant (tree s) (join ''.0.'' (h # hs @ [lp]))
      \<and> holds_array (get_keys (JObj (tree s)) (split_dot h))
      \<and> (case schema_path s h of
            None \<Rightarrow> False
          | Some t \<Rightarrow> (case st_schema t of None \<Rightarrow> False | Some c \<Rightarrow> copies_vacant c hs lp)))"

lemma vacantE:
  assumes "vacant t pth"
  obtains ks k kvs where "split_dot pth = ks @ [k]" "get_keys (JObj t) ks = JObj kvs"
    "map_of kvs k = None"
proof -
  have "split_dot pth = butlast (split_dot pth) @ [last (split_dot pth)]"
    using split_dot_nonempty [of pth] by simp
  moreover from assms obtain kvs where
    "get_keys (JObj t) (butlast (split_dot pth)) = JObj kvs"
    "map_of kvs (last (split_dot pth)) = None"
    by (auto simp: vacant_def split: jsv.splits)
  ultimately show thesis using that by blast
qed

lemma set_del_vacant:
  assumes "split_dot pth = ks @ [k]" "get_keys (JObj t) ks = JObj kvs" "map_of kvs k = None"
    and "pth \<noteq> []" "d \<noteq> JUndef"
  shows "objectPath_set (JObj t) pth d = Inr (modify_at (JObj t) ks (\<lambda>w. store_prop w k d))"
    and "objectPath_del (modify_at (JObj t) ks (\<lambda>w. store_prop w k d)) pth = JObj t"
proof -
  have "get_keys (JObj t) ks \<noteq> JUndef" "assignable (get_keys (JObj t) ks)"
    using assms(2) by simp_all
  then show "objectPath_set (JObj t) pth d = Inr (modify_at (JObj t) ks (\<lambda>w. store_prop w k d))"
    using assms(1,4) by (simp add: objectPath_set_def set_keys_modify)
  show "objectPath_del (modify_at (JObj t) ks (\<lambda>w. store_prop w k d)) pth = JObj t"
    using assms(1,4) del_new_member [OF assms(2,3), of "\<lambda>w. d"] assms(5)
    by (simp add: objectPath_del_def)
qed

lemma modify_append:
  "modify_at v (ks @ ks') g = modify_at v ks (\<lambda>w. modify_at w ks' g)"
  by (induction ks arbitrary: v) simp_all

lemma modify_obj_any: "JObj (members (modify_at (JObj t) ks (\<lambda>w. store_prop w k x)))
    = modify_at (JObj t) ks (\<lambda>w. store_prop w k x)"
  by (cases ks) auto

lemma split_dot_app: "split_dot (a @ CHR ''.'' # b) = split_dot a @ split_dot b"
proof (induction a)
  case Nil
  show ?case by simp
next
  case (Cons c a)
  have ne: "split_dot a \<noteq> []" by (rule split_dot_nonempty)
  show ?case
  proof (cases "c = CHR ''.''")
    case True
    with Cons show ?thesis by simp
  next
    case False
    with Cons ne show ?thesis by (cases "split_dot a") simp_all
  qed
qed

lemma index_key_marker: "index_key ''$[]'' = None"
  by (simp add: index_key_def canonical_def is_digit_def)

lemma foldl_mark_prefix:
  "h \<noteq> [] \<Longrightarrow> xs \<noteq> [] \<Longrightarrow> \<exists>z. foldl mark h xs = h @ ''.$[].'' @ z"
proof (induction xs arbitrary: h)
  case Nil
  then show ?case by simp
next
  case (Cons x xs)
  show ?case
  proof (cases "xs = []")
    case True
    with Cons.prems show ?thesis by (simp add: mark_def)
  next
    case False
    have "mark h x \<noteq> []" using Cons.prems by (simp add: mark_def)
    from Cons.IH [OF this False] obtain z where "foldl mark (mark h x) xs = mark h x @ ''.$[].'' @ z"
      by blast
    then have "foldl mark h (x # xs) = h @ ''.$[].'' @ (x @ ''.$[].'' @ z)"
      using Cons.prems by (simp add: mark_def)
    then show ?thesis by blast
  qed
qed

lemma marked_path_missing:
  assumes "holds_array (get_keys v (split_dot h))" "h \<noteq> []"
  shows "objectPath_del v (foldl mark [] (h # hs @ [lp])) = v"
proof -
  have "foldl mark [] (h # hs @ [lp]) = foldl mark h (hs @ [lp])" by (simp add: mark_def)
  with foldl_mark_prefix [OF assms(2), of "hs @ [lp]"] obtain z where
    fp: "foldl mark [] (h # hs @ [lp]) = h @ ''.$[].'' @ z" by auto
  have "split_dot (h @ ''.$[].'' @ z) = split_dot h @ ''$[]'' # split_dot z"
    using split_dot_app [of h "''$[].'' @ z"] split_dot_append [of "''$[]''" z] by simp
  moreover have "get_keys v (split_dot h @ ''$[]'' # split_dot z) = JUndef"
    using assms(1) by (cases "get_keys v (split_dot h)") (simp_all add: get_keys_append index_key_marker)
  ultimately have "del_keys v (split_dot (h @ ''.$[].'' @ z)) = v"
    by (simp add: del_keys_missing)
  then show ?thesis unfolding fp by (simp add: objectPath_del_def)
qed

lemma copy_path_segments:
  "rest \<noteq> [] \<Longrightarrow>
     split_dot (join ''.0.'' (h # rest)) = split_dot h @ ''0'' # split_dot (join ''.0.'' rest)"
  using split_dot_app [of h "''0.'' @ join ''.0.'' rest"] split_dot_append [of "''0''" "join ''.0.'' rest"]
  by (simp add: join_Cons)

lemma array_kept:
  assumes "holds_array (get_keys v ks)"
  shows "holds_array (get_keys (modify_at v (ks @ k # r) g) ks)"
proof -
  from assms have ne: "get_keys v ks \<noteq> JUndef" by auto
  have "get_keys (modify_at v (ks @ k # r) g) ks = modify_at (get_keys v ks) (k # r) g"
    using ne by (simp add: modify_append get_modify)
  with assms show ?thesis by (cases "get_keys v ks") (auto split: option.splits)
qed

section \<open>An addition and a removal at one level\<close>

lemma add_level:
  assumes sp: "schema_path s h = Some t" and st: "st_schema t = Some c"
    and vac: "vacant (tree s) (join ''.0.'' (h # hs @ [lp]))" and hne: "h \<noteq> []"
    and d: "d \<noteq> JUndef"
  shows "\<exists>sa. tree_loop (\<lambda>t p. objectPath_set t p d) (update_at (h # hs) ga s) ((h # hs) @ [lp])
              = (sa, snd (tree_loop (\<lambda>t p. objectPath_set t p d) (update_at hs ga c) (hs @ [lp])))
          \<and> schema_path sa h = Some (SType (st_instance t)
               (Some (fst (tree_loop (\<lambda>t p. objectPath_set t p d) (update_at hs ga c) (hs @ [lp])))))
          \<and> objectPath_del (JObj (tree sa)) (join ''.0.'' (h # hs @ [lp])) = JObj (tree s)
          \<and> (holds_array (get_keys (JObj (tree s)) (split_dot h))
               \<longrightarrow> holds_array (get_keys (JObj (tree sa)) (split_dot h)))"
proof -
  let ?set = "\<lambda>t p. objectPath_set t p d"
  let ?pth = "join ''.0.'' (h # hs @ [lp])"
  let ?ca = "fst (tree_loop ?set (update_at hs ga c) (hs @ [lp]))"
  from vac obtain ks k kvs where
    seg: "split_dot ?pth = ks @ [k]" and par: "get_keys (JObj (tree s)) ks = JObj kvs"
    and new: "map_of kvs k = None"
    by (rule vacantE)
  have pne: "?pth \<noteq> []" using hne by (simp add: join_Cons)
  let ?T = "modify_at (JObj (tree s)) ks (\<lambda>w. store_prop w k d)"
  note sd = set_del_vacant [OF seg par new pne d]
  let ?sa = "set_child (Schema (members ?T) (paths s)) h ?ca"
  have up: "update_at (h # hs) ga s = set_child s h (update_at hs ga c)"
    using sp st by simp
  have 1: "tree_loop ?set (update_at (h # hs) ga s) ((h # hs) @ [lp])
      = (?sa, snd (tree_loop ?set (update_at hs ga c) (hs @ [lp])))"
    unfolding up using loop_step [OF sp, of ?set hs lp ?T "update_at hs ga c"] sd(1) by simp
  have 2: "schema_path ?sa h = Some (SType (st_instance t) (Some ?ca))"
    using sp schema_path_set_child [of "Schema (members ?T) (paths s)" h ?ca h]
    by (simp add: schema_path_def)
  have T: "JObj (tree ?sa) = ?T" by (simp add: tree_set_child modify_obj_any)
  have 3: "objectPath_del (JObj (tree ?sa)) ?pth = JObj (tree s)"
    unfolding T by (rule sd(2))
  have 4: "holds_array (get_keys (JObj (tree ?sa)) (split_dot h))"
    if arr: "holds_array (get_keys (JObj (tree s)) (split_dot h))"
  proof -
    have cs: "split_dot ?pth = split_dot h @ ''0'' # split_dot (join ''.0.'' (hs @ [lp]))"
      by (rule copy_path_segments) simp
    have "split_dot (join ''.0.'' (hs @ [lp])) \<noteq> []" by (rule split_dot_nonempty)
    then obtain r where r: "''0'' # split_dot (join ''.0.'' (hs @ [lp])) = (''0'' # r) @ [k]"
      and ks: "ks = split_dot h @ ''0'' # r"
      using seg cs by (cases "split_dot (join ''.0.'' (hs @ [lp]))" rule: rev_cases) auto
    have "?T = modify_at (JObj (tree s)) (split_dot h @ ''0'' # r @ [k]) (\<lambda>w. d)"
      unfolding ks using modify_snoc [of "JObj (tree s)" "split_dot h @ ''0'' # r" k "\<lambda>w. d"]
      by simp
    with array_kept [OF arr, of "''0''" "r @ [k]" "\<lambda>w. d"] show ?thesis
      unfolding T by simp
  qed
  from 1 2 3 4 show ?thesis by blast
qed

lemma del_level:
  assumes "schema_path sm h = Some ty" "st_schema ty = Some ca"
    and "objectPath_del (JObj (tree sm)) (join ''.0.'' (h # hs @ [lp])) = JObj t0"
  shows "tree_loop (\<lambda>t p. Inr (objectPath_del t p)) (update_at (h # hs) gd sm) ((h # hs) @ [lp])
      = (set_child (Schema t0 (paths sm)) h
           (fst (tree_loop (\<lambda>t p. Inr (objectPath_del t p)) (update_at hs gd ca) (hs @ [lp]))),
         snd (tree_loop (\<lambda>t p. Inr (objectPath_del t p)) (update_at hs gd ca) (hs @ [lp])))"
proof -
  have up: "update_at (h # hs) gd sm = set_child sm h (update_at hs gd ca)"
    using assms(1,2) by simp
  show ?thesis
    unfolding up
    using loop_step [OF assms(1), of "\<lambda>t p. Inr (objectPath_del t p)" hs lp "JObj t0"
        "update_at hs gd ca"] assms(3)
    by simp
qed

lemma inner_round:
  assumes "copies_vacant s hs lp" "descend s hs = Some own" "tree (gd (ga own)) = tree own"
    and "\<forall>h\<in>set hs. h \<noteq> []" "d \<noteq> JUndef"
  shows "snd (tree_loop (\<lambda>t p. objectPath_set t p d) (update_at hs ga s) (hs @ [lp])) = None
     \<and> trees_along
         (fst (tree_loop (\<lambda>t p. Inr (objectPath_del t p))
                 (update_at hs gd
                    (fst (tree_loop (\<lambda>t p. objectPath_set t p d) (update_at hs ga s) (hs @ [lp]))))
                 (hs @ [lp])))
         hs = trees_along s hs"
  using assms
proof (induction hs arbitrary: s)
  case Nil
  then show ?case by simp
next
  case (Cons h hs)
  let ?set = "\<lambda>t p. objectPath_set t p d"
  let ?del = "\<lambda>t p. Inr (objectPath_del t p) :: error + jsv"
  from Cons.prems(2) obtain t c where sp: "schema_path s h = Some t" and st: "st_schema t = Some c"
    and dc: "descend c hs = Some own"
    by (auto split: option.splits)
  from Cons.prems(1) sp st have vac: "vacant (tree s) (join ''.0.'' (h # hs @ [lp]))"
    and cv: "copies_vacant c hs lp" by simp_all
  from Cons.prems(4) have hne: "h \<noteq> []" and hs: "\<forall>h\<in>set hs. h \<noteq> []" by simp_all
  let ?ca = "fst (tree_loop ?set (update_at hs ga c) (hs @ [lp]))"
  from add_level [OF sp st vac hne Cons.prems(5), of ga] obtain sa where
    a1: "tree_loop ?set (update_at (h # hs) ga s) ((h # hs) @ [lp])
          = (sa, snd (tree_loop ?set (update_at hs ga c) (hs @ [lp])))"
    and a2: "schema_path sa h = Some (SType (st_instance t) (Some ?ca))"
    and a3: "objectPath_del (JObj (tree sa)) (join ''.0.'' (h # hs @ [lp])) = JObj (tree s)"
    by blast
  have "st_schema (SType (st_instance t) (Some ?ca)) = Some ?ca" by simp
  note dl = del_level [OF a2 this a3, of gd]
  from Cons.IH [OF cv dc Cons.prems(3) hs Cons.prems(5)]
  have ih1: "snd (tree_loop ?set (update_at hs ga c) (hs @ [lp])) = None"
    and ih2: "trees_along (fst (tree_loop ?del (update_at hs gd ?ca) (hs @ [lp]))) hs
        = trees_along c hs"
    by simp_all
  have "trees_along (fst (tree_loop ?del (update_at (h # hs) gd sa) ((h # hs) @ [lp]))) (h # hs)
      = tree s # trees_along c hs"
    unfolding dl fst_conv using trees_along_set_child [OF a2] ih2 by simp
  with a1 ih1 sp st show ?case by simp
qed

section \<open>An addition that resolves\<close>

lemma types_of_leaf:
  "segs \<noteq> [] \<Longrightarrow> \<forall>s\<in>set (tl segs). s \<noteq> ''type'' \<Longrightarrow> \<not> is_nested d \<Longrightarrow>
     \<exists>ty. types_of pre (members (nest segs d)) = [(pre @ join ''.'' segs, ty)]"
proof (induction segs arbitrary: pre)
  case Nil
  then show ?case by simp
next
  case (Cons s r)
  show ?case
  proof (cases r)
    case Nil
    with Cons.prems(3) show ?thesis by simp
  next
    case (Cons s' r')
    with Cons.prems(2) have s': "s' \<noteq> ''type''" and rest: "\<forall>s\<in>set (tl r). s \<noteq> ''type''"
      by simp_all
    have "is_nested (nest r d)" using Cons s' by (simp add: is_nested_def)
    moreover from Cons.IH [OF _ rest Cons.prems(3), of "pre @ s @ ''.''"] Cons obtain ty where
      "types_of (pre @ s @ ''.'') (members (nest r d)) = [((pre @ s @ ''.'') @ join ''.'' r, ty)]"
      by auto
    ultimately show ?thesis using Cons by simp
  qed
qed

lemma added_registered:
  assumes "segs \<noteq> []" "\<forall>s\<in>set (tl segs). s \<noteq> ''type''" "\<not> is_nested d"
  shows "schema_path (schema_add s (nest segs d)) (join ''.'' segs) \<noteq> None"
proof -
  from types_of_leaf [OF assms, of "[]"] obtain ty where
    "types_of [] (members (nest segs d)) = [(join ''.'' segs, ty)]" by auto
  then show ?thesis by (simp add: schema_path_def schema_add_def update_conv')
qed

lemma owner_round:
  assumes seg: "split_dot lp = ks @ [k]" and lp: "lp \<noteq> []"
    and names: "\<forall>s\<in>set (tl (ks @ [k])). s \<noteq> ''type'' \<and> \<not> number_key s"
    and par: "get_keys (JObj (tree own)) ks = JObj kvs" and new: "map_of kvs k = None"
    and d: "d \<noteq> JUndef"
  shows "objectPath_set (JObj []) lp d = Inr (nest (ks @ [k]) d)"
    and "objectPath_del (JObj (tree (schema_add own (nest (ks @ [k]) d)))) lp = JObj (tree own)"
    and "objectPath_del (JObj (tree own)) lp = JObj (tree own)"
    and "objectPath_get (JObj (tree (schema_add own (nest (ks @ [k]) d)))) lp \<noteq> JUndef"
    and "objectPath_get (JObj (tree own)) lp = JUndef"
proof -
  let ?T = "JObj (tree own)"
  let ?sa = "schema_add own (nest (ks @ [k]) d)"
  let ?X = "added d k"
  have X: "?X (JObj kvs) \<noteq> JUndef" using d by (simp add: added_def)
  have Ta: "JObj (tree ?sa) = modify_at ?T ks (\<lambda>w. store_prop w k (?X w))"
    unfolding tree_schema_add using names par by (rule merge_nest)
  from names have "\<forall>s\<in>set (tl (ks @ [k])). \<not> number_key s" by simp
  then show "objectPath_set (JObj []) lp d = Inr (nest (ks @ [k]) d)"
    using lp seg set_keys_nest [of "ks @ [k]" d] by (simp add: objectPath_set_def)
  show "objectPath_del (JObj (tree ?sa)) lp = ?T"
    unfolding Ta using lp seg X del_new_member [OF par new, of "added d k"]
    by (simp add: objectPath_del_def)
  show "objectPath_del ?T lp = ?T"
    using lp seg del_absent [OF par new] by (simp add: objectPath_del_def)
  have w: "get_keys ?T ks \<noteq> JUndef" using par by simp
  have "get_keys (JObj (tree ?sa)) (ks @ [k]) = get_prop (store_prop (JObj kvs) k (?X (JObj kvs))) k"
    unfolding Ta get_keys_snoc using w par by (simp add: get_modify)
  also have "\<dots> = ?X (JObj kvs)" by (simp add: update_conv')
  finally show "objectPath_get (JObj (tree ?sa)) lp \<noteq> JUndef"
    using X lp seg by (simp add: objectPath_get_def)
  show "objectPath_get ?T lp = JUndef"
    using lp seg par new by (simp add: objectPath_get_def get_keys_snoc)
qed

lemma save_defaults_schema: "schema (snd (save_defaults st p n i ds m)) = schema m"
  by (induction ds arbitrary: i m) (auto split: sum.splits)

lemma save_defaults_ok:
  assumes "\<forall>s p doc ds. \<exists>ds'. st_save st s p doc ds = Inr ds'"
  shows "rest \<noteq> [] \<Longrightarrow> i + length rest = n \<Longrightarrow>
     settled (fst (save_defaults st p n i rest m)) = Some (Resolved JUndef)"
proof (induction rest arbitrary: i m)
  case Nil
  then show ?case by simp
next
  case (Cons doc rest)
  from assms obtain ds where ds: "st_save st (schema m) p doc (docs m) = Inr ds" by blast
  show ?case
  proof (cases "rest = []")
    case True
    with Cons.prems ds show ?thesis by simp
  next
    case False
    with Cons.prems have "Suc i \<noteq> n" "Suc i + length rest = n" by (cases rest; simp)+
    with Cons.IH [OF False, of "Suc i" "m\<lparr>docs := ds\<rparr>"] ds show ?thesis by simp
  qed
qed

lemma updateDefaults_ok:
  assumes "\<forall>ds. \<exists>ds'. st_find st ds = Inr ds'"
    and "\<forall>s p doc ds. \<exists>ds'. st_save st s p doc ds = Inr ds'"
  shows "settled (fst (updateDefaults st m p)) = Some (Resolved JUndef)"
    and "schema (snd (updateDefaults st m p)) = schema m"
proof -
  from assms(1) obtain ds where ds: "st_find st (docs m) = Inr ds" by blast
  show "settled (fst (updateDefaults st m p)) = Some (Resolved JUndef)"
    using ds save_defaults_ok [OF assms(2), of ds 0 "length ds" p m]
    by (simp add: updateDefaults_def)
  show "schema (snd (updateDefaults st m p)) = schema m"
    using ds by (simp add: updateDefaults_def save_defaults_schema)
qed

lemma then_promise_resolved:
  "settled (fst r) = Some (Resolved v) \<Longrightarrow>
     then_promise r k = (store_events (fst r) @ fst (k v (snd r)), snd (k v (snd r)))"
  by (simp add: then_promise_def)

lemma is_nested_no_placeholder:
  "is_nested v \<Longrightarrow> v \<noteq> JUndef \<and> v \<noteq> JNull \<and> keys_length v \<noteq> 0 \<and> \<not> truthy (get_prop v ''type'')"
  by (cases v) (auto simp: is_nested_def)

lemma addSchemaAux_resolved:
  assumes "objectPath_set (JObj []) (path l) d = Inr aq"
    and "tree_loop (\<lambda>t p. objectPath_set t p d)
           (update_at (butlast (subPaths l)) (\<lambda>s. schema_add s aq) (schema m)) (subPaths l)
         = (sa, None)"
    and "\<forall>ds. \<exists>ds'. st_find st ds = Inr ds'"
    and "\<forall>s p doc ds. \<exists>ds'. st_save st s p doc ds = Inr ds'"
  shows "settled (fst (addSchemaAux st m l d)) = Some (Resolved JUndef)"
    and "schema (snd (addSchemaAux st m l d)) = sa"
proof -
  let ?u = "updateDefaults st (m\<lparr>schema := sa\<rparr>) (last (subPaths l))"
  note u = updateDefaults_ok [OF assms(3,4), of "m\<lparr>schema := sa\<rparr>" "last (subPaths l)"]
  have "addSchemaAux st m l d = then_promise ?u (\<lambda>v m'. ([Settle (Resolved JUndef)], m'))"
    using assms(1,2) by (simp add: addSchemaAux_def update_owner_def)
  also have "\<dots> = (store_events (fst ?u) @ [Settle (Resolved JUndef)], snd ?u)"
    using u(1) by (simp add: then_promise_resolved)
  finally have eq: "addSchemaAux st m l d = (store_events (fst ?u) @ [Settle (Resolved JUndef)], snd ?u)" .
  show "settled (fst (addSchemaAux st m l d)) = Some (Resolved JUndef)"
    unfolding eq by (simp add: settled_store_events)
  show "schema (snd (addSchemaAux st m l d)) = sa"
    unfolding eq using u(2) by simp
qed

lemma addSchemaField_resolved:
  assumes "pathIsValid p" "getLastSchemaAndPaths (schema m) p = Inr l" "\<not> exists l"
    and "length (split_dot (path l)) > 1 \<Longrightarrow>
           is_nested (objectPath_get (JObj (tree (lastSchemaAndPaths.schema l)))
                        (join ''.'' (butlast (split_dot (path l)))))"
    and "objectPath_set (JObj []) (path l) d = Inr aq"
    and "tree_loop (\<lambda>t p. objectPath_set t p d)
           (update_at (butlast (subPaths l)) (\<lambda>s. schema_add s aq) (schema m)) (subPaths l)
         = (sa, None)"
    and "\<forall>ds. \<exists>ds'. st_find st ds = Inr ds'"
    and "\<forall>s p doc ds. \<exists>ds'. st_save st s p doc ds = Inr ds'"
  shows "settled (fst (addSchemaField st m p d)) = Some (Resolved (JStr ''Field added successfully''))"
    and "schema (snd (addSchemaField st m p d)) = sa"
proof -
  note aux = addSchemaAux_resolved [OF assms(5-8)]
  have "addSchemaField st m p d =
      then_promise (addSchemaAux st m l d) (\<lambda>v. resolve ''Field added successfully'')"
  proof (cases "length (split_dot (path l)) > 1")
    case True
    from is_nested_no_placeholder [OF assms(4) [OF True]] True assms(1-3) show ?thesis
      by (simp add: addSchemaField_def Let_def)
  next
    case False
    with assms(1-3) show ?thesis by (simp add: addSchemaField_def Let_def)
  qed
  also have "\<dots> = (store_events (fst (addSchemaAux st m l d))
                      @ [Settle (Resolved (JStr ''Field added successfully''))],
                    snd (addSchemaAux st m l d))"
    using aux(1) by (simp add: then_promise_resolved resolve_def)
  finally have eq: "addSchemaField st m p d =
      (store_events (fst (addSchemaAux st m l d))
         @ [Settle (Resolved (JStr ''Field added successfully''))],
       snd (addSchemaAux st m l d))" .
  show "settled (fst (addSchemaField st m p d)) = Some (Resolved (JStr ''Field added successfully''))"
    unfolding eq by (simp add: settled_store_events)
  show "schema (snd (addSchemaField st m p d)) = sa"
    unfolding eq using aux(2) by simp
qed

section \<open>An addition followed by the removal\<close>

lemma round_trip_run:
  assumes valid: "pathIsValid p"
    and res: "getLastSchemaAndPaths (schema m) p = Inr l"
    and nex: "\<not> exists l"
    and d: "d \<noteq> JUndef"
    and free: "vacant (tree (lastSchemaAndPaths.schema l)) (path l)"
    and names: "\<forall>s\<in>set (tl (split_dot (path l))). s \<noteq> ''type'' \<and> \<not> number_key s"
    and parent: "length (split_dot (path l)) > 1 \<longrightarrow>
           is_nested (objectPath_get (JObj (tree (lastSchemaAndPaths.schema l)))
                        (join ''.'' (butlast (split_dot (path l)))))"
    and copies: "copies_vacant (schema m) (butlast (subPaths l)) (path l)"
    and cont: "removes_at_most (st_remove st)"
    and reg: "removes_registered (st_remove st)"
    and nst: "is_nested d \<longrightarrow> removes_nested (st_remove st)"
    and upd: "\<forall>q u ds. \<exists>ds'. st_update st q u ds = Inr ds'"
    and fnd: "\<forall>ds. \<exists>ds'. st_find st ds = Inr ds'"
    and sav: "\<forall>s p doc ds. \<exists>ds'. st_save st s p doc ds = Inr ds'"
  shows "settled (fst (addSchemaField st m p d)) = Some (Resolved (JStr ''Field added successfully''))
    \<and> settled (fst (removeSchemaField st (snd (addSchemaField st m p d)) p False))
        = Some (Resolved (JStr ''Field removed successfully''))
    \<and> trees_along (schema (snd (removeSchemaField st (snd (addSchemaField st m p d)) p False)))
          (butlast (subPaths l))
        = trees_along (schema m) (butlast (subPaths l))"
proof -
  let ?R = "schema m" and ?own = "lastSchemaAndPaths.schema l"
  let ?rm = "st_remove st"
  let ?T = "JObj (tree ?own)"
  let ?lp = "path l"
  let ?set = "\<lambda>t p. objectPath_set t p d"
  let ?del = "\<lambda>t p. Inr (objectPath_del t p) :: error + jsv"
  have w: "walk ?R (hd (split_dot p)) (tl (split_dot p)) [] [] = Inr l"
    using res by (simp add: getLastSchemaAndPaths_walk)
  from walk_structure [OF w] obtain hs z where
    hs: "subPaths l = hs @ [?lp]" "descend ?R hs = Some ?own"
      "fullPath l = foldl mark [] (hs @ [?lp])"
      "exists l = (objectPath_get ?T ?lp \<noteq> JUndef)"
      "join ''.'' (hs @ [?lp]) = join ''.'' (hd (split_dot p) # tl (split_dot p))"
    by auto
  have p: "join ''.'' (hs @ [?lp]) = p"
    using hs(5) split_dot_nonempty [of p] join_split [of p] by simp
  from hops_valid [OF valid p] have hops: "\<forall>h\<in>set hs. h \<noteq> []" by simp
  have bl: "butlast (subPaths l) = hs" using hs(1) by simp
  have lpne: "?lp \<noteq> []" using nex hs(4) by (auto simp: objectPath_get_def)
  from free obtain ks k kvs where
    seg: "split_dot ?lp = ks @ [k]" and par: "get_keys ?T ks = JObj kvs"
    and new: "map_of kvs k = None"
    by (rule vacantE)
  from names seg have names': "\<forall>s\<in>set (tl (ks @ [k])). s \<noteq> ''type'' \<and> \<not> number_key s"
    by simp
  define aq where "aq = nest (ks @ [k]) d"
  define ga where "ga = (\<lambda>s. schema_add s aq)"
  define gd where "gd = (\<lambda>s. ?rm s ?lp)"
  note ow = owner_round [OF seg lpne names' par new d, folded aq_def]
  have jl: "join ''.'' (ks @ [k]) = ?lp" using join_split [of ?lp] seg by simp
  have del_added: "tree (?rm (schema_add x aq) ?lp)
      = members (objectPath_del (JObj (tree (schema_add x aq))) ?lp)" for x
  proof (cases "is_nested d")
    case True
    with nst show ?thesis by (simp add: removes_nested_def)
  next
    case False
    from names' have "\<forall>s\<in>set (tl (ks @ [k])). s \<noteq> ''type''" by simp
    with added_registered [of "ks @ [k]" d x] False
    have "schema_path (schema_add x aq) ?lp \<noteq> None" by (simp add: aq_def jl)
    with reg show ?thesis by (simp add: removes_registered_def)
  qed
  have og: "tree (gd (ga ?own)) = tree ?own"
    using ow(2) by (simp add: ga_def gd_def del_added)
  from copies have cv: "copies_vacant ?R hs ?lp" by (simp add: bl)
  define A where "A = fst (tree_loop ?set (update_at hs ga ?R) (hs @ [?lp]))"
  from inner_round [where ga = ga and gd = gd, OF cv hs(2) og hops d]
  have loopA: "tree_loop ?set (update_at hs ga ?R) (hs @ [?lp]) = (A, None)"
    by (simp add: A_def prod_eq_iff)
  have loopA': "tree_loop ?set (update_at (butlast (subPaths l)) (\<lambda>s. schema_add s aq) ?R)
      (subPaths l) = (A, None)"
    using loopA by (simp add: bl hs(1) ga_def)
  have parent': "is_nested (objectPath_get ?T (join ''.'' (butlast (split_dot ?lp))))"
    if "length (split_dot ?lp) > 1"
    using parent that by simp
  note add = addSchemaField_resolved [OF valid res nex parent' ow(1) loopA' fnd sav]
  define m1 where "m1 = snd (addSchemaField st m p d)"
  have sm1: "schema m1 = A" using add(2) by (simp add: m1_def)
  \<comment> \<open>the path resolves in the schema as added to\<close>
  have dga: "descend (update_at hs ga ?R) hs = Some (ga ?own)"
    using hs(2) by (rule descend_update_at)
  have dA: "descend A hs = Some (ga ?own)"
    unfolding A_def using dga by (rule tree_loop_descend)
  have a1: "alike hs (length ?lp) ?R (update_at hs ga ?R)"
  proof (rule alike_update_at [OF hs(2)], intro allI impI)
    fix q :: string assume "length q < length ?lp"
    then have "length q < length (join ''.'' (ks @ [k]))" by (simp add: jl)
    moreover from names' have "\<forall>s\<in>set (tl (ks @ [k])). s \<noteq> ''type''" by simp
    ultimately show "is_array (ga ?own) q = is_array ?own q"
      unfolding ga_def aq_def by (intro is_array_schema_add_short) simp_all
  qed
  have a2: "alike hs (length ?lp) (update_at hs ga ?R) A"
    unfolding A_def using dga by (rule tree_loop_alike)
  from a1 a2 have al: "alike hs (length ?lp) ?R A" by (rule alike_trans)
  have sub0: "subPaths l = [] @ hs @ [?lp]" using hs(1) by simp
  from walk_alike [OF w sub0 al] dA
  have w1: "walk A (hd (split_dot p)) (tl (split_dot p)) [] [] =
      Inr (l\<lparr>exists := (objectPath_get (JObj (tree (ga ?own))) ?lp \<noteq> JUndef),
             lastSchemaAndPaths.schema := ga ?own\<rparr>)"
    by auto
  define l' where "l' = l\<lparr>exists := True, lastSchemaAndPaths.schema := ga ?own\<rparr>"
  have res': "getLastSchemaAndPaths (schema m1) p = Inr l'"
    using w1 ow(4) by (simp add: getLastSchemaAndPaths_walk sm1 l'_def ga_def)
  have l's: "subPaths l' = hs @ [?lp]" "path l' = ?lp" "fullPath l' = foldl mark [] (hs @ [?lp])"
    "exists l'"
    using hs(1,3) by (simp_all add: l'_def)
  have "0 \<le> length ?lp" by simp
  note rf = removed_facts [OF cont dA l's(1) l's(2) l's(3) hops this]
  from upd obtain ds where
    ds: "st_update st (unset_filter l') (unset_update l') (docs m1) = Inr ds" by blast
  have rm: "removeSchemaField st m1 p False =
      ([BulkUpdate True, Settle (Resolved (JStr ''Field removed successfully''))],
       \<lparr>schema = removed ?rm (schema m1) l', docs = ds\<rparr>)"
    using rf(1) by (intro remove_resolved_plain [OF valid res' l's(4) ds]) (simp add: sm1)
  \<comment> \<open>the trees in the end\<close>
  have rd: "removed ?rm A l' = fst (tree_loop ?del (update_at hs gd (?rm A (fullPath l'))) (hs @ [?lp]))"
    by (simp add: removed_def l's gd_def)
  have trees: "trees_along (removed ?rm A l') hs = trees_along ?R hs"
  proof (cases hs)
    case Nil
    with hs(2) have own: "?own = ?R" by simp
    from Nil have Ag: "A = ga ?R" by (simp add: A_def)
    from Nil l's(3) have fl: "fullPath l' = ?lp" by (simp add: mark_def)
    have rr: "removed ?rm A l' = ?rm (?rm (schema_add ?R aq) ?lp) ?lp"
      unfolding rd fl using Nil by (simp add: Ag gd_def ga_def)
    have first: "tree (?rm (schema_add ?R aq) ?lp) = tree ?R"
      using og own by (simp add: ga_def gd_def)
    have "tree (?rm (?rm (schema_add ?R aq) ?lp) ?lp) = tree ?R"
      using remove_tree_cases [OF cont, of "?rm (schema_add ?R aq) ?lp" ?lp] ow(3) own
      by (auto simp: first)
    with rr Nil show ?thesis by simp
  next
    case (Cons h hs')
    from hs(2) Cons obtain t c where sp: "schema_path ?R h = Some t" and st: "st_schema t = Some c"
      and dc: "descend c hs' = Some ?own"
      by (auto split: option.splits)
    from cv Cons sp st have vac: "vacant (tree ?R) (join ''.0.'' (h # hs' @ [?lp]))"
      and arr: "holds_array (get_keys (JObj (tree ?R)) (split_dot h))"
      and cvc: "copies_vacant c hs' ?lp" by simp_all
    from hops Cons have hne: "h \<noteq> []" and hops': "\<forall>h\<in>set hs'. h \<noteq> []" by simp_all
    let ?ca = "fst (tree_loop ?set (update_at hs' ga c) (hs' @ [?lp]))"
    from add_level [OF sp st vac hne d, of ga] obtain sa where
      s1: "tree_loop ?set (update_at (h # hs') ga ?R) ((h # hs') @ [?lp])
            = (sa, snd (tree_loop ?set (update_at hs' ga c) (hs' @ [?lp])))"
      and s2: "schema_path sa h = Some (SType (st_instance t) (Some ?ca))"
      and s3: "objectPath_del (JObj (tree sa)) (join ''.0.'' (h # hs' @ [?lp])) = JObj (tree ?R)"
      and s4: "holds_array (get_keys (JObj (tree ?R)) (split_dot h))
               \<longrightarrow> holds_array (get_keys (JObj (tree sa)) (split_dot h))"
      by blast
    have A: "A = sa" using s1 Cons by (simp add: A_def)
    define sm where "sm = ?rm sa (fullPath l')"
    have fp: "fullPath l' = foldl mark [] (h # hs' @ [?lp])" using l's(3) Cons by simp
    have "objectPath_del (JObj (tree sa)) (fullPath l') = JObj (tree sa)"
      unfolding fp using s4 arr hne by (intro marked_path_missing) simp_all
    then have tsm: "tree sm = tree sa"
      using remove_tree_cases [OF cont, of sa "fullPath l'"] by (auto simp: sm_def)
    have "length h < length (fullPath l')"
      unfolding fp using foldl_mark_hop [OF hne, of hs' ?lp] by simp
    then have psm: "schema_path sm h = Some (SType (st_instance t) (Some ?ca))"
      using s2 cont by (simp add: sm_def remove_path_short)
    have s3': "objectPath_del (JObj (tree sm)) (join ''.0.'' (h # hs' @ [?lp])) = JObj (tree ?R)"
      using s3 by (simp add: tsm)
    have "st_schema (SType (st_instance t) (Some ?ca)) = Some ?ca" by simp
    note dl = del_level [OF psm this s3', of gd]
    from inner_round [where ga = ga and gd = gd, OF cvc dc og hops' d]
    have ih: "trees_along (fst (tree_loop ?del (update_at hs' gd ?ca) (hs' @ [?lp]))) hs'
        = trees_along c hs'" by simp
    have "removed ?rm A l' = fst (tree_loop ?del (update_at (h # hs') gd sm) ((h # hs') @ [?lp]))"
      using rd Cons by (simp add: A sm_def)
    also have "trees_along \<dots> (h # hs') = tree ?R # trees_along c hs'"
      unfolding dl fst_conv using trees_along_set_child [OF psm] ih by simp
    finally show ?thesis using Cons sp st by simp
  qed
  have "settled (fst (removeSchemaField st m1 p False))
      = Some (Resolved (JStr ''Field removed successfully''))"
    by (simp add: rm)
  moreover have "trees_along (schema (snd (removeSchemaField st m1 p False))) hs = trees_along ?R hs"
    using trees by (simp add: rm sm1)
  ultimately show ?thesis using add(1) by (simp add: m1_def bl)
qed

section \<open>An addition below an empty subdocument\<close>

definition same_fields :: "(string \<times> jsv) list \<Rightarrow> (string \<times> jsv) list \<Rightarrow> bool" where
  \<comment> \<open>The two trees are the same mapping from field names to nodes; the order in which
      the fields are kept is left out of the comparison.\<close>
  "same_fields t t' = (map_of t = map_of t')"

lemma split_dot_segment: "x \<in> set (split_dot a) \<Longrightarrow> CHR ''.'' \<notin> set x"
proof (induction a arbitrary: x)
  case Nil
  then show ?case by simp
next
  case (Cons c a)
  have ne: "split_dot a \<noteq> []" by (rule split_dot_nonempty)
  show ?case
  proof (cases "c = CHR ''.''")
    case True
    with Cons show ?thesis by auto
  next
    case False
    from ne have hd: "hd (split_dot a) \<in> set (split_dot a)" by simp
    from ne have tl: "set (tl (split_dot a)) \<subseteq> set (split_dot a)" by (cases "split_dot a") auto
    from Cons.prems False have "x = c # hd (split_dot a) \<or> x \<in> set (tl (split_dot a))" by simp
    then show ?thesis
    proof
      assume "x = c # hd (split_dot a)"
      with Cons.IH [OF hd] False show ?thesis by simp
    next
      assume "x \<in> set (tl (split_dot a))"
      with tl Cons.IH show ?thesis by blast
    qed
  qed
qed

lemma single_segment_resolves:
  "CHR ''.'' \<notin> set s \<Longrightarrow> getLastSchemaAndPaths r s = Inr (located r s [] [])"
  by (simp add: getLastSchemaAndPaths_walk split_dot_nodot)

lemma two_segments_resolve:
  "\<not> is_array r s \<Longrightarrow> CHR ''.'' \<notin> set s \<Longrightarrow> CHR ''.'' \<notin> set t \<Longrightarrow>
     getLastSchemaAndPaths r (s @ ''.'' @ t) = Inr (located r (s @ ''.'' @ t) [] [])"
  using split_dot_append [of s t]
  by (simp add: getLastSchemaAndPaths_walk split_dot_nodot)

lemma placeholder_round:
  assumes valid: "pathIsValid p"
    and res: "getLastSchemaAndPaths (schema m) p = Inr l"
    and nex: "\<not> exists l"
    and d: "d \<noteq> JUndef"
    and top: "subPaths l = [path l]"
    and seg: "split_dot (path l) = [s, t]"
    and ph: "objectPath_get (JObj (tree (lastSchemaAndPaths.schema l)))
               (join ''.'' (butlast (split_dot (path l)))) = JObj []"
    and names: "t \<noteq> ''type''" "\<not> number_key t"
    and cont: "removes_at_most (st_remove st)"
    and reg: "removes_registered (st_remove st)"
    and nst: "is_nested d \<longrightarrow> removes_nested (st_remove st)"
    and upd: "\<forall>q u ds. \<exists>ds'. st_update st q u ds = Inr ds'"
    and fnd: "\<forall>ds. \<exists>ds'. st_find st ds = Inr ds'"
    and sav: "\<forall>s p doc ds. \<exists>ds'. st_save st s p doc ds = Inr ds'"
  shows "settled (fst (addSchemaField st m p d)) = Some (Resolved (JStr ''Field added successfully''))
    \<and> settled (fst (removeSchemaField st (snd (addSchemaField st m p d)) p False))
        = Some (Resolved (JStr ''Field removed successfully''))
    \<and> same_fields
         (tree (schema (snd (removeSchemaField st (snd (addSchemaField st m p d)) p False))))
         (tree (schema m))"
proof -
  let ?R = "schema m"
  let ?T = "tree ?R"
  let ?rm = "st_remove st"
  let ?lp = "path l"
  let ?del = "\<lambda>t p. Inr (objectPath_del t p) :: error + jsv"
  let ?set = "\<lambda>t p. objectPath_set t p d"
  have w: "walk ?R (hd (split_dot p)) (tl (split_dot p)) [] [] = Inr l"
    using res by (simp add: getLastSchemaAndPaths_walk)
  from walk_structure [OF w] obtain hs z where
    hs: "subPaths l = hs @ [?lp]" "descend ?R hs = Some (lastSchemaAndPaths.schema l)"
      "pathToLast l = replace_first ''.$[]'' [] (foldl mark [] hs)"
      "join ''.'' (hs @ [?lp]) = join ''.'' (hd (split_dot p) # tl (split_dot p))"
    by auto
  from hs(1) top have hs0: "hs = []" by simp
  with hs(2) have own: "lastSchemaAndPaths.schema l = ?R" by simp
  from hs(3) hs0 have ptl: "pathToLast l = []" by (simp add: replace_first_none)
  have p: "p = ?lp"
    using hs(4) hs0 split_dot_nonempty [of p] join_split [of p] by simp
  have lp: "?lp = s @ ''.'' @ t" using join_split [of ?lp] seg by simp
  have "s \<in> set (split_dot ?lp)" "t \<in> set (split_dot ?lp)" using seg by simp_all
  then have nodot: "CHR ''.'' \<notin> set s" "CHR ''.'' \<notin> set t"
    by (simp_all add: split_dot_segment)
  from valid p lp have vs: "pathIsValid s" and sne: "s \<noteq> []"
    using pathIsValid_prefix [of s t] by simp_all
  have gs: "get_prop (JObj ?T) s = JObj []"
    using ph seg sne nodot(1) own
    by (simp add: objectPath_get_def split_dot_nodot split: if_splits)
  then have ms: "map_of ?T s = Some (JObj [])" by (simp split: option.splits)
  have na: "\<not> is_array ?R s"
  proof
    assume arr: "is_array ?R s"
    have sp: "split_dot p = [s, t]" using p seg by simp
    from w arr sp obtain child where "l = located child t s [s]"
      by (auto split: option.splits)
    then have "subPaths l = [s, t]" by (simp add: located_def)
    with top show False by simp
  qed
  \<comment> \<open>the removal of the placeholder\<close>
  define rs where "rs = located ?R s [] []"
  have res_s: "getLastSchemaAndPaths ?R s = Inr rs"
    unfolding rs_def using nodot(1) by (rule single_segment_resolves)
  have ex_s: "exists rs"
    using gs sne nodot(1) by (simp add: rs_def located_def objectPath_get_def split_dot_nodot)
  from upd obtain ds0 where
    ds0: "st_update st (unset_filter rs) (unset_update rs) (docs m) = Inr ds0" by blast
  have "snd (tree_loop ?del (update_at (butlast (subPaths rs)) (\<lambda>x. ?rm x (path rs))
            (?rm ?R (fullPath rs))) (subPaths rs)) = None"
    by (simp add: rs_def located_def)
  from remove_resolved_plain [OF vs res_s ex_s ds0 this]
  have rem1: "removeSchemaField st m s False =
      ([BulkUpdate True, Settle (Resolved (JStr ''Field removed successfully''))],
       \<lparr>schema = removed ?rm ?R rs, docs = ds0\<rparr>)" .
  define R1 where "R1 = ?rm (?rm ?R s) s"
  have R1: "removed ?rm ?R rs = R1" by (simp add: removed_def rs_def located_def R1_def)
  define m1 where "m1 = \<lparr>schema = R1, docs = ds0\<rparr>"
  have dels: "objectPath_del (JObj ?T) s = JObj (AList.delete s ?T)"
    using gs sne nodot(1) by (simp add: objectPath_del_def split_dot_nodot)
  have dels': "objectPath_del (JObj (AList.delete s ?T)) s = JObj (AList.delete s ?T)"
    using sne nodot(1) by (simp add: objectPath_del_def split_dot_nodot delete_conv')
  have once: "tree (?rm x s) = ?T \<or> tree (?rm x s) = AList.delete s ?T"
    if "tree x = ?T \<or> tree x = AList.delete s ?T" for x
    using that remove_tree_cases [OF cont, of x s] by (auto simp: dels dels')
  have t1: "tree R1 = ?T \<or> tree R1 = AList.delete s ?T"
    unfolding R1_def using once [of ?R] once [of "?rm ?R s"] by auto
  then have g1: "members (get_prop (JObj (tree R1)) s) = []"
    using ms by (auto simp: delete_conv')
  \<comment> \<open>the addition\<close>
  define X where "X = (if is_nested d then JObj (merge_into [] (members d)) else d)"
  have X: "X \<noteq> JUndef" using d by (simp add: X_def)
  define aq where "aq = nest [s, t] d"
  define R2 where "R2 = schema_add R1 aq"
  have lpne: "?lp \<noteq> []" using lp by simp
  have aq: "objectPath_set (JObj []) ?lp d = Inr aq"
    using lpne seg names(2) set_keys_nest [of "[s, t]" d]
    by (simp add: objectPath_set_def aq_def)
  have loop: "tree_loop ?set (update_at (butlast (subPaths l)) (\<lambda>x. schema_add x aq) (schema m1))
      (subPaths l) = (R2, None)"
    by (simp add: top m1_def R2_def)
  note aux = addSchemaAux_resolved [OF aq loop fnd sav]
  have branch: "addSchemaField st m p d =
      then_promise
        (then_promise (removeSchemaField st m s False) (\<lambda>v m1. addSchemaAux st m1 l d))
        (\<lambda>v. resolve ''Field added successfully'')"
    using valid res nex seg ph ptl by (simp add: addSchemaField_def Let_def)
  have inner: "then_promise (removeSchemaField st m s False) (\<lambda>v m1. addSchemaAux st m1 l d)
      = (BulkUpdate True # fst (addSchemaAux st m1 l d), snd (addSchemaAux st m1 l d))"
    unfolding rem1 R1 by (simp add: then_promise_def store_events_def m1_def)
  have add: "addSchemaField st m p d =
      (BulkUpdate True # store_events (fst (addSchemaAux st m1 l d))
         @ [Settle (Resolved (JStr ''Field added successfully''))],
       snd (addSchemaAux st m1 l d))"
    unfolding branch inner using aux(1)
    by (simp add: then_promise_def resolve_def store_events_def)
  have add_ok: "settled (fst (addSchemaField st m p d))
      = Some (Resolved (JStr ''Field added successfully''))"
    unfolding add by (simp add: settled_store_events)
  define m2 where "m2 = snd (addSchemaField st m p d)"
  have sm2: "schema m2 = R2" unfolding m2_def add using aux(2) by simp
  have tR2: "tree R2 = AList.update s (JObj [(t, X)]) (tree R1)"
    using names(1) g1
    by (simp add: R2_def aq_def tree_schema_add is_nested_def X_def)
  \<comment> \<open>the removal of the field\<close>
  have "is_array R2 s = is_array R1 s"
    unfolding R2_def aq_def using names(1) lp
    by (intro is_array_schema_add_short) simp_all
  moreover have "\<not> is_array R1 s"
    unfolding R1_def using na remove_is_array [OF cont] by blast
  ultimately have na2: "\<not> is_array R2 s" by simp
  define l2 where "l2 = located R2 ?lp [] []"
  have res2: "getLastSchemaAndPaths (schema m2) p = Inr l2"
    unfolding sm2 p l2_def lp using na2 nodot by (rule two_segments_resolve)
  have ex2: "exists l2"
    using X lpne seg by (simp add: l2_def located_def objectPath_get_def tR2 update_conv')
  from upd obtain ds2 where
    ds2: "st_update st (unset_filter l2) (unset_update l2) (docs m2) = Inr ds2" by blast
  have "snd (tree_loop ?del (update_at (butlast (subPaths l2)) (\<lambda>x. ?rm x (path l2))
            (?rm (schema m2) (fullPath l2))) (subPaths l2)) = None"
    by (simp add: l2_def located_def)
  from remove_resolved_plain [OF valid res2 ex2 ds2 this]
  have rem2: "removeSchemaField st m2 p False =
      ([BulkUpdate True, Settle (Resolved (JStr ''Field removed successfully''))],
       \<lparr>schema = removed ?rm (schema m2) l2, docs = ds2\<rparr>)" .
  have R3: "removed ?rm (schema m2) l2 = ?rm (?rm R2 ?lp) ?lp"
    by (simp add: removed_def l2_def located_def sm2)
  define F where "F = AList.update s (JObj []) (tree R1)"
  have delF: "objectPath_del (JObj (tree R2)) ?lp = JObj F"
    using lpne seg X by (simp add: objectPath_del_def tR2 update_conv' F_def)
  have delF': "objectPath_del (JObj F) ?lp = JObj F"
    using lpne seg by (simp add: objectPath_del_def update_conv' F_def)
  have first: "tree (?rm R2 ?lp) = F"
  proof (cases "is_nested d")
    case True
    with nst show ?thesis by (simp add: removes_nested_def delF)
  next
    case False
    from added_registered [of "[s, t]" d R1] False names(1)
    have "schema_path R2 ?lp \<noteq> None" by (simp add: R2_def aq_def lp)
    with reg show ?thesis by (simp add: removes_registered_def delF)
  qed
  have last: "tree (?rm (?rm R2 ?lp) ?lp) = F"
    using remove_tree_cases [OF cont, of "?rm R2 ?lp" ?lp] by (auto simp: first delF')
  have "map_of F = map_of ?T"
    using t1 ms by (auto simp: F_def update_conv' delete_conv' fun_upd_idem)
  then have "same_fields (tree (schema (snd (removeSchemaField st m2 p False)))) ?T"
    by (simp add: rem2 R3 last same_fields_def)
  moreover have "settled (fst (removeSchemaField st m2 p False))
      = Some (Resolved (JStr ''Field removed successfully''))"
    by (simp add: rem2)
  ultimately show ?thesis using add_ok by (simp add: m2_def)
qed

section \<open>The round trip of an addition and a removal\<close>

definition resolved_round_trip :: "store \<Rightarrow> model \<Rightarrow> string \<Rightarrow> jsv \<Rightarrow> schema option" where
  \<comment> \<open>\<open>addSchemaField(model, p, d)\<close> followed by \<open>removeSchemaField(model, p)\<close>: the schema
      of the model afterwards, when both promises have resolved.\<close>
  "resolved_round_trip st m p d =
     (let r1 = addSchemaField st m p d;
          r2 = removeSchemaField st (snd r1) p False
      in if settled (fst r1) = Some (Resolved (JStr ''Field added successfully''))
            \<and> settled (fst r2) = Some (Resolved (JStr ''Field removed successfully''))
         then Some (schema (snd r2)) else None)"

definition previousField :: "lastSchemaAndPaths \<Rightarrow> jsv" where
  \<comment> \<open>\<open>previousField\<close> of \<open>addSchemaField\<close>: what the tree of the owning schema has at
      the local path without its last segment.\<close>
  "previousField l =
     objectPath_get (JObj (tree (lastSchemaAndPaths.schema l)))
       (join ''.'' (butlast (split_dot (path l))))"

definition typed_array_model :: model where
  \<comment> \<open>An array of subdocuments declared with options: \<open>{a: {type: [{b: String}]}}\<close>.\<close>
  "typed_array_model =
     \<lparr>schema = schema_add empty_schema
         (JObj [(''a'', JObj [(''type'', JArr [JObj [(''b'', JFun ''String'')]])])]),
      docs = []\<rparr>"

definition placeholder_model :: model where
  \<comment> \<open>An empty subdocument at the top level: \<open>{m: {}, x: String}\<close>.\<close>
  "placeholder_model =
     \<lparr>schema = schema_add empty_schema (JObj [(''m'', JObj []), (''x'', JFun ''String'')]),
      docs = []\<rparr>"

definition array_placeholder_model :: model where
  \<comment> \<open>An empty subdocument in the elements of an array, and a field whose name is the
      two names put together: \<open>{a: [{s: {}, u: String}], as: String}\<close>.\<close>
  "array_placeholder_model =
     \<lparr>schema = schema_add empty_schema
         (JObj [(''a'', JArr [JObj [(''s'', JObj []), (''u'', JFun ''String'')]]),
                (''as'', JFun ''String'')]),
      docs = []\<rparr>"

text \<open>
  Round trips in which both promises resolve and the tree is not what it was.
  Adding \<open>q.r\<close> where there is no \<open>q\<close> creates the subdocument \<open>q\<close>, and the removal of
  \<open>q.r\<close> leaves it behind, empty. Adding \<open>n.c\<close> below the leaf \<open>n\<close> takes the branch for an
  empty placeholder (the \<open>type\<close> of \<open>n\<close> has no keys): \<open>n\<close> is removed and added again as a
  subdocument, and in the end \<open>n\<close> is an empty subdocument, its definition lost. Adding
  \<open>a.c\<close> where the array \<open>a\<close> is declared as \<open>{type: [...]}\<close> sets \<open>a.0.c\<close> in the tree of
  the model, which creates a member \<open>0\<close> beside \<open>type\<close>; the removal leaves it there.
  These three end the same with a \<open>remove\<close> that deletes subdocuments and with one that
  does not. With the latter, a field added as a subdocument \<open>{x: String}\<close> is not removed
  from the tree at all. The last one is the empty placeholder below an array: the path of
  the placeholder is put together as \<open>pathToLast + lastPaths\<close>, without the separator, and the
  field \<open>as\<close> of the model is removed in its place.
\<close>

theorem round_trip_residue_counterexample:
  "map_option tree (resolved_round_trip memory_store nested_model ''q.r'' (JFun ''String''))
     = Some (tree (schema nested_model) @ [(''q'', JObj [])])
   \<and> map_option tree (resolved_round_trip legacy_store nested_model ''q.r'' (JFun ''String''))
     = Some (tree (schema nested_model) @ [(''q'', JObj [])])
   \<and> map_option tree (resolved_round_trip memory_store nested_model ''n.c'' (JFun ''String''))
     = Some [(''a'', JObj [(''b'', JObj [(''c'', JFun ''String'')])]), (''n'', JObj [])]
   \<and> map_option tree (resolved_round_trip legacy_store nested_model ''n.c'' (JFun ''String''))
     = Some [(''a'', JObj [(''b'', JObj [(''c'', JFun ''String'')])]), (''n'', JObj [])]
   \<and> map_option tree (resolved_round_trip memory_store typed_array_model ''a.c'' (JFun ''Number''))
     = Some [(''a'', JObj [(''type'', JArr [JObj [(''b'', JFun ''String'')]]), (''0'', JObj [])])]
   \<and> map_option tree (resolved_round_trip legacy_store typed_array_model ''a.c'' (JFun ''Number''))
     = Some [(''a'', JObj [(''type'', JArr [JObj [(''b'', JFun ''String'')]]), (''0'', JObj [])])]
   \<and> map_option tree
         (resolved_round_trip legacy_store nested_model ''q'' (JObj [(''x'', JFun ''String'')]))
     = Some (tree (schema nested_model) @ [(''q'', JObj [(''x'', JFun ''String'')])])
   \<and> map_option tree
         (resolved_round_trip memory_store array_placeholder_model ''a.s.t'' (JFun ''String''))
     = Some [(''a'', JArr [JObj [(''s'', JObj []), (''u'', JFun ''String'')]])]
   \<and> tree (schema array_placeholder_model)
     = [(''a'', JArr [JObj [(''s'', JObj []), (''u'', JFun ''String'')]]), (''as'', JFun ''String'')]"
  by code_simp

text \<open>
  C6. Let \<open>p\<close> be a valid path that does not exist yet, resolved to the local path
  \<open>path l\<close> in the owning schema, and \<open>d\<close> a definition. Suppose that the local path is
  free in the tree of the owning schema (its parent is there, an object without the new
  member); that the parent, if the local path has one, is a subdocument with fields and no
  \<open>type\<close>, or else an empty subdocument at the top level of the model's schema; that no
  segment of the local path after the first is \<open>type\<close> or a number; that in the tree of
  every enclosing schema the array of the next hop is written as an array whose first
  element has the path free in the same way; that the \<open>remove\<close> of the schema library
  deletes at most the node at its path, deletes the node of a path with a registered type
  and, if \<open>d\<close> is a subdocument, deletes subdocuments too; and that the operations of the
  store succeed. Then \<open>addSchemaField\<close> followed by \<open>removeSchemaField\<close> both resolve, and
  the tree of the model's schema and of every schema on the way to the owning one have the
  fields they had before the addition. Unless the parent is the empty subdocument, which is
  removed and added again, the trees are what they were, order included.
\<close>

theorem add_then_remove_restores_trees:
  assumes "pathIsValid p"
    and "getLastSchemaAndPaths (schema m) p = Inr l"
    and "\<not> exists l"
    and "d \<noteq> JUndef"
    and "vacant (tree (lastSchemaAndPaths.schema l)) (path l)"
    and "\<forall>s\<in>set (tl (split_dot (path l))). s \<noteq> ''type'' \<and> \<not> number_key s"
    and "length (split_dot (path l)) > 1 \<longrightarrow>
           is_nested (previousField l)
           \<or> (previousField l = JObj [] \<and> subPaths l = [path l]
               \<and> length (split_dot (path l)) = 2)"
    and "copies_vacant (schema m) (butlast (subPaths l)) (path l)"
    and "removes_at_most (st_remove st)"
    and "removes_registered (st_remove st)"
    and "is_nested d \<longrightarrow> removes_nested (st_remove st)"
    and "\<forall>q u ds. \<exists>ds'. st_update st q u ds = Inr ds'"
    and "\<forall>ds. \<exists>ds'. st_find st ds = Inr ds'"
    and "\<forall>s p doc ds. \<exists>ds'. st_save st s p doc ds = Inr ds'"
  shows "\<exists>s'. resolved_round_trip st m p d = Some s'
    \<and> list_all2 same_fields (trees_along s' (butlast (subPaths l)))
         (trees_along (schema m) (butlast (subPaths l)))
    \<and> ((length (split_dot (path l)) > 1 \<longrightarrow> is_nested (previousField l))
         \<longrightarrow> trees_along s' (butlast (subPaths l)) = trees_along (schema m) (butlast (subPaths l)))"
proof (cases "length (split_dot (path l)) > 1 \<longrightarrow> is_nested (previousField l)")
  case True
  then have "length (split_dot (path l)) > 1 \<longrightarrow>
      is_nested (objectPath_get (JObj (tree (lastSchemaAndPaths.schema l)))
                   (join ''.'' (butlast (split_dot (path l)))))"
    by (simp add: previousField_def)
  from round_trip_run [OF assms(1-6) this assms(8-14)]
  have "resolved_round_trip st m p d
      = Some (schema (snd (removeSchemaField st (snd (addSchemaField st m p d)) p False)))"
    and "trees_along (schema (snd (removeSchemaField st (snd (addSchemaField st m p d)) p False)))
          (butlast (subPaths l)) = trees_along (schema m) (butlast (subPaths l))"
    by (simp_all add: resolved_round_trip_def)
  moreover have "list_all2 same_fields xs xs" for xs
    by (simp add: list_all2_same same_fields_def)
  ultimately show ?thesis by simp
next
  case False
  with assms(7) have ph: "previousField l = JObj []" and top: "subPaths l = [path l]"
    and two: "length (split_dot (path l)) = 2"
    by auto
  from two obtain s t where seg: "split_dot (path l) = [s, t]"
    by (cases "split_dot (path l)" rule: list.exhaust; simp; case_tac x22; simp)
  with assms(6) have names: "t \<noteq> ''type''" "\<not> number_key t" by simp_all
  from ph have ph': "objectPath_get (JObj (tree (lastSchemaAndPaths.schema l)))
               (join ''.'' (butlast (split_dot (path l)))) = JObj []"
    by (simp add: previousField_def)
  from placeholder_round [OF assms(1-4) top seg ph' names assms(9-14)]
  have "resolved_round_trip st m p d
      = Some (schema (snd (removeSchemaField st (snd (addSchemaField st m p d)) p False)))"
    and "same_fields
         (tree (schema (snd (removeSchemaField st (snd (addSchemaField st m p d)) p False))))
         (tree (schema m))"
    by (simp_all add: resolved_round_trip_def)
  with top False show ?thesis by simp
qed

theorem add_then_remove_restores_trees_witness:
  "(\<exists>s'. resolved_round_trip memory_store deep_model ''a.b.c.s.e'' (JFun ''Number'') = Some s'
       \<and> trees_along s' [''a'', ''b'', ''c''] = trees_along (schema deep_model) [''a'', ''b'', ''c''])
   \<and> (\<exists>s'. resolved_round_trip legacy_store deep_model ''a.b.c.s.e'' (JFun ''Number'') = Some s'
       \<and> trees_along s' [''a'', ''b'', ''c''] = trees_along (schema deep_model) [''a'', ''b'', ''c''])
   \<and> (\<exists>s'. resolved_round_trip memory_store placeholder_model ''m.k'' (JFun ''String'') = Some s'
       \<and> same_fields (tree s') (tree (schema placeholder_model)))"
proof -
  define l where "l = \<lparr>exists = False,
    schema = Schema [(''s'', JObj [(''d'', JFun ''String'')])] [(''s.d'', SType ''String'' None)],
    path = ''s.e'', fullPath = ''a.$[].b.$[].c.$[].s.e'', pathToLast = ''a.b.$[].c'',
    subPaths = [''a'', ''b'', ''c'', ''s.e'']\<rparr>"
  define k where "k = \<lparr>exists = False, schema = schema placeholder_model,
    path = ''m.k'', fullPath = ''m.k'', pathToLast = [], subPaths = [''m.k'']\<rparr>"
  have v1: "pathIsValid ''a.b.c.s.e''" by code_simp
  have v2: "pathIsValid ''m.k''" by code_simp
  note 1 = v1 v2
  have 2: "getLastSchemaAndPaths (schema deep_model) ''a.b.c.s.e'' = Inr l"
    unfolding l_def by code_simp
  have p2: "getLastSchemaAndPaths (schema placeholder_model) ''m.k'' = Inr k"
    unfolding k_def by code_simp
  have 3: "\<not> exists l" "\<not> exists k" by (simp_all add: l_def k_def)
  have 4: "JFun ''Number'' \<noteq> JUndef" "JFun ''String'' \<noteq> JUndef" by simp_all
  have 5: "vacant (tree (lastSchemaAndPaths.schema l)) (path l)"
    unfolding l_def by code_simp
  have p5: "vacant (tree (lastSchemaAndPaths.schema k)) (path k)"
    unfolding k_def by code_simp
  have 6: "\<forall>s\<in>set (tl (split_dot (path l))). s \<noteq> ''type'' \<and> \<not> number_key s"
    unfolding l_def by code_simp
  have p6: "\<forall>s\<in>set (tl (split_dot (path k))). s \<noteq> ''type'' \<and> \<not> number_key s"
    unfolding k_def by code_simp
  have n: "is_nested (previousField l)"
    unfolding l_def previousField_def by code_simp
  then have 7: "length (split_dot (path l)) > 1 \<longrightarrow>
           is_nested (previousField l)
           \<or> (previousField l = JObj [] \<and> subPaths l = [path l]
               \<and> length (split_dot (path l)) = 2)"
    by simp
  have e1: "previousField k = JObj []"
    unfolding k_def previousField_def by code_simp
  have e2: "length (split_dot (path k)) = 2"
    unfolding k_def by code_simp
  from e1 e2 have p7: "length (split_dot (path k)) > 1 \<longrightarrow>
           is_nested (previousField k)
           \<or> (previousField k = JObj [] \<and> subPaths k = [path k]
               \<and> length (split_dot (path k)) = 2)"
    by (simp add: k_def)
  have 8: "copies_vacant (schema deep_model) (butlast (subPaths l)) (path l)"
    unfolding l_def by code_simp
  have p8: "copies_vacant (schema placeholder_model) (butlast (subPaths k)) (path k)"
    by (simp add: k_def)
  have 9: "removes_at_most (st_remove memory_store)" "removes_registered (st_remove memory_store)"
    "is_nested d \<longrightarrow> removes_nested (st_remove memory_store)" for d
    by (simp_all add: memory_store_def schema_remove_at_most schema_remove_registered
        schema_remove_nested)
  have p9: "removes_at_most (st_remove legacy_store)" "removes_registered (st_remove legacy_store)"
    "is_nested (JFun ''Number'') \<longrightarrow> removes_nested (st_remove legacy_store)"
    by (simp_all add: legacy_store_def remove_registered_at_most remove_registered_registered
        is_nested_def)
  have 10: "\<forall>q u ds. \<exists>ds'. st_update memory_store q u ds = Inr ds'"
    "\<forall>ds. \<exists>ds'. st_find memory_store ds = Inr ds'"
    "\<forall>s p doc ds. \<exists>ds'. st_save memory_store s p doc ds = Inr ds'"
    by (simp_all add: memory_store_def)
  have p10: "\<forall>q u ds. \<exists>ds'. st_update legacy_store q u ds = Inr ds'"
    "\<forall>ds. \<exists>ds'. st_find legacy_store ds = Inr ds'"
    "\<forall>s p doc ds. \<exists>ds'. st_save legacy_store s p doc ds = Inr ds'"
    by (simp_all add: memory_store_def legacy_store_def)
  from add_then_remove_restores_trees [OF 1(1) 2 3(1) 4(1) 5 6 7 8 9 10] n
  have a: "\<exists>s'. resolved_round_trip memory_store deep_model ''a.b.c.s.e'' (JFun ''Number'') = Some s'
       \<and> trees_along s' [''a'', ''b'', ''c''] = trees_along (schema deep_model) [''a'', ''b'', ''c'']"
    by (auto simp: l_def)
  from add_then_remove_restores_trees [OF 1(1) 2 3(1) 4(1) 5 6 7 8 p9 p10] n
  have b: "\<exists>s'. resolved_round_trip legacy_store deep_model ''a.b.c.s.e'' (JFun ''Number'') = Some s'
       \<and> trees_along s' [''a'', ''b'', ''c''] = trees_along (schema deep_model) [''a'', ''b'', ''c'']"
    by (auto simp: l_def)
  from add_then_remove_restores_trees [OF 1(2) p2 3(2) 4(2) p5 p6 p7 p8 9 10]
  have c: "\<exists>s'. resolved_round_trip memory_store placeholder_model ''m.k'' (JFun ''String'') = Some s'
       \<and> same_fields (tree s') (tree (schema placeholder_model))"
    by (auto simp: k_def)
  from a b c show ?thesis by blast
qed

end
